theory Spec2Isabelle
  imports Main
begin

section \<open>A store model of the JavaScript objects the merges work on\<close>

text \<open>
  The repository's two merge functions (\<^verbatim>\<open>unsafeMerge\<close> of the vulnerable server and of the
  concept demo, \<^verbatim>\<open>safeMerge\<close> of the patched server) mutate objects that share the
  prototype object \<^verbatim>\<open>Object.prototype\<close>.  What they do depends on that sharing, so objects
  live in an explicit store: a list of objects, an address being an index into it.

  Scope of the model.  Values are the JSON values plus \<^verbatim>\<open>undefined\<close>, \<^verbatim>\<open>NaN\<close> and references.
  Numbers are integers (fractions, rounding and infinities of IEEE doubles are left out).
  Strings are ASCII.  An object holds its own properties in creation order, its prototype
  link, its extensible flag and its class.  The only accessor property is the built-in
  \<^verbatim>\<open>__proto__\<close> of \<^verbatim>\<open>Object.prototype\<close>; every other property is a data property with the
  attributes enumerable and writable.  Arrays are objects of class \<open>Array\<close> with index-named
  properties and a \<^verbatim>\<open>length\<close> data property; the automatic adjustment of \<^verbatim>\<open>length\<close> is not
  modelled: a write to an array is carried out as on an ordinary object.  The theorems that
  say what a merge leaves in its target are therefore about targets that are not arrays.
  All scripts of the repository are non-strict, so a failed assignment is silent;
  \<open>put_strict\<close> gives the strict-mode behaviour for comparison.
\<close>

type_synonym addr = nat

datatype val = Undefined | Null | Bool bool | Num int | NaN | Str string | Ref addr

datatype slot =
    Data val bool bool   \<comment> \<open>value, enumerable, writable\<close>
  | ProtoAccessor        \<comment> \<open>the getter/setter pair \<^verbatim>\<open>Object.prototype.__proto__\<close>\<close>

datatype okind = Plain | Array | Function

record obj =
  props :: "(string \<times> slot) list"
  proto :: "addr option"
  extensible :: bool
  kind :: okind

type_synonym heap = "obj list"

datatype error = TypeError

subsection \<open>Well-known objects\<close>

definition ObjectPrototype :: addr where "ObjectPrototype = 0"
definition FunctionPrototype :: addr where "FunctionPrototype = 1"
definition ArrayPrototype :: addr where "ArrayPrototype = 2"
definition ObjectCtor :: addr where "ObjectCtor = 3"
definition NumberPrototype :: addr where "NumberPrototype = 4"
definition StringPrototype :: addr where "StringPrototype = 5"
definition BooleanPrototype :: addr where "BooleanPrototype = 6"

definition deref :: "heap \<Rightarrow> addr \<Rightarrow> obj option" where
  "deref h a = (if a < length h then Some (h ! a) else None)"

definition alloc :: "heap \<Rightarrow> obj \<Rightarrow> addr \<times> heap" where
  "alloc h ob = (length h, h @ [ob])"

text \<open>\<^verbatim>\<open>Object.create(null)\<close> and the literal \<^verbatim>\<open>{}\<close>.\<close>

definition null_object :: obj where
  "null_object = \<lparr>props = [], proto = None, extensible = True, kind = Plain\<rparr>"

definition empty_object :: obj where
  "empty_object = \<lparr>props = [], proto = Some ObjectPrototype, extensible = True, kind = Plain\<rparr>"

subsection \<open>Property keys\<close>

text \<open>
  An array index is a canonical decimal numeral below \<open>2^32 - 1\<close>.  Own keys are listed
  with the array indices first, in ascending order, then the other names in creation order.
\<close>

definition digit_of :: "char \<Rightarrow> int option" where
  "digit_of c = map_of [(CHR ''0'', 0), (CHR ''1'', 1), (CHR ''2'', 2), (CHR ''3'', 3),
     (CHR ''4'', 4), (CHR ''5'', 5), (CHR ''6'', 6), (CHR ''7'', 7), (CHR ''8'', 8),
     (CHR ''9'', 9)] c"

fun digits_val :: "int \<Rightarrow> string \<Rightarrow> int option" where
  "digits_val acc [] = Some acc"
| "digits_val acc (c # cs) =
     (case digit_of c of None \<Rightarrow> None | Some d \<Rightarrow> digits_val (10 * acc + d) cs)"

definition array_index :: "string \<Rightarrow> int option" where
  "array_index s =
     (case s of
        [] \<Rightarrow> None
      | c # cs \<Rightarrow>
          if c = CHR ''0'' \<and> cs \<noteq> [] then None
          else (case digits_val 0 s of
                  None \<Rightarrow> None
                | Some n \<Rightarrow> if n < 4294967295 then Some n else None))"

definition index_rank :: "string \<Rightarrow> int" where
  "index_rank k = (case array_index k of Some n \<Rightarrow> n | None \<Rightarrow> 0)"

definition order_keys :: "string list \<Rightarrow> string list" where
  "order_keys ks =
     sort_key index_rank (filter (\<lambda>k. array_index k \<noteq> None) ks)
     @ filter (\<lambda>k. array_index k = None) ks"

definition own_property_keys :: "obj \<Rightarrow> string list" where
  "own_property_keys ob = order_keys (map fst (props ob))"

definition slot_enumerable :: "slot \<Rightarrow> bool" where
  "slot_enumerable s = (case s of Data v e w \<Rightarrow> e | ProtoAccessor \<Rightarrow> False)"

definition enumerable_key :: "obj \<Rightarrow> string \<Rightarrow> bool" where
  "enumerable_key ob k =
     (case map_of (props ob) k of None \<Rightarrow> False | Some s \<Rightarrow> slot_enumerable s)"

definition own_enumerable_keys :: "obj \<Rightarrow> string list" where
  "own_enumerable_keys ob = filter (enumerable_key ob) (own_property_keys ob)"

fun digit_char :: "nat \<Rightarrow> char" where
  "digit_char n = ''0123456789'' ! (n mod 10)"

fun string_of_nat :: "nat \<Rightarrow> string" where
  "string_of_nat n =
     (if n < 10 then [digit_char n] else string_of_nat (n div 10) @ [digit_char n])"

declare string_of_nat.simps [simp del]

subsection \<open>Reading a property: \<^verbatim>\<open>base[key]\<close>\<close>

text \<open>
  The lookup walks the prototype chain from the start object and returns the first object
  that holds the key, with the slot found.  Prototype chains of JavaScript are acyclic, so a
  chain is never longer than the store; that bound is the fuel of the walk.
\<close>

fun find_from :: "nat \<Rightarrow> heap \<Rightarrow> addr \<Rightarrow> string \<Rightarrow> (addr \<times> slot) option" where
  "find_from 0 h a k = None"
| "find_from (Suc n) h a k =
     (case deref h a of
        None \<Rightarrow> None
      | Some ob \<Rightarrow>
          (case map_of (props ob) k of
             Some s \<Rightarrow> Some (a, s)
           | None \<Rightarrow> (case proto ob of None \<Rightarrow> None | Some p \<Rightarrow> find_from n h p k)))"

definition find_slot :: "heap \<Rightarrow> addr \<Rightarrow> string \<Rightarrow> (addr \<times> slot) option" where
  "find_slot h a k = find_from (length h) h a k"

text \<open>What the getter of \<^verbatim>\<open>__proto__\<close> returns for a receiver: its prototype.\<close>

definition receiver_proto :: "heap \<Rightarrow> val \<Rightarrow> val" where
  "receiver_proto h base =
     (case base of
        Ref r \<Rightarrow>
          (case deref h r of
             None \<Rightarrow> Undefined
           | Some ob \<Rightarrow> (case proto ob of None \<Rightarrow> Null | Some p \<Rightarrow> Ref p))
      | Bool b \<Rightarrow> Ref BooleanPrototype
      | Num n \<Rightarrow> Ref NumberPrototype
      | NaN \<Rightarrow> Ref NumberPrototype
      | Str s \<Rightarrow> Ref StringPrototype
      | Undefined \<Rightarrow> Undefined
      | Null \<Rightarrow> Undefined)"

definition get_chain :: "heap \<Rightarrow> val \<Rightarrow> addr \<Rightarrow> string \<Rightarrow> val" where
  "get_chain h base a k =
     (case find_slot h a k of
        None \<Rightarrow> Undefined
      | Some (holder, Data v e w) \<Rightarrow> v
      | Some (holder, ProtoAccessor) \<Rightarrow> receiver_proto h base)"

text \<open>The own properties of a string primitive: its length and its characters.\<close>

definition string_own :: "string \<Rightarrow> string \<Rightarrow> val option" where
  "string_own s k =
     (if k = ''length'' then Some (Num (int (length s)))
      else (case array_index k of
              None \<Rightarrow> None
            | Some i \<Rightarrow> if i < int (length s) then Some (Str [s ! nat i]) else None))"

definition get :: "heap \<Rightarrow> val \<Rightarrow> string \<Rightarrow> error + val" where
  "get h base k =
     (case base of
        Undefined \<Rightarrow> Inl TypeError
      | Null \<Rightarrow> Inl TypeError
      | Ref a \<Rightarrow> Inr (get_chain h base a k)
      | Bool b \<Rightarrow> Inr (get_chain h base BooleanPrototype k)
      | Num n \<Rightarrow> Inr (get_chain h base NumberPrototype k)
      | NaN \<Rightarrow> Inr (get_chain h base NumberPrototype k)
      | Str s \<Rightarrow>
          (case string_own s k of
             Some v \<Rightarrow> Inr v
           | None \<Rightarrow> Inr (get_chain h base StringPrototype k)))"

subsection \<open>Writing a property: \<^verbatim>\<open>base[key] = v\<close>\<close>

datatype set_result = Done heap | Refused | Raised error

fun set_prop :: "string \<Rightarrow> slot \<Rightarrow> (string \<times> slot) list \<Rightarrow> (string \<times> slot) list" where
  "set_prop k s [] = [(k, s)]"
| "set_prop k s (p # ps) = (if fst p = k then (k, s) # ps else p # set_prop k s ps)"

definition set_own :: "heap \<Rightarrow> addr \<Rightarrow> string \<Rightarrow> slot \<Rightarrow> heap" where
  "set_own h a k s = h[a := (h ! a)\<lparr>props := set_prop k s (props (h ! a))\<rparr>]"

definition create_own :: "heap \<Rightarrow> addr \<Rightarrow> string \<Rightarrow> val \<Rightarrow> set_result" where
  "create_own h a k v =
     (case deref h a of
        None \<Rightarrow> Refused
      | Some ob \<Rightarrow> if extensible ob then Done (set_own h a k (Data v True True)) else Refused)"

fun on_chain :: "nat \<Rightarrow> heap \<Rightarrow> addr option \<Rightarrow> addr \<Rightarrow> bool" where
  "on_chain 0 h p a = False"
| "on_chain (Suc n) h None a = False"
| "on_chain (Suc n) h (Some q) a =
     (q = a \<or> (case deref h q of None \<Rightarrow> False | Some ob \<Rightarrow> on_chain n h (proto ob) a))"

text \<open>
  The setter of \<^verbatim>\<open>__proto__\<close> on an object receiver.  Setting the prototype it already has
  succeeds; otherwise a non-extensible receiver, \<^verbatim>\<open>Object.prototype\<close> itself (its prototype
  is immutable) and a prototype cycle make the setter throw.
\<close>

definition set_prototype :: "heap \<Rightarrow> addr \<Rightarrow> addr option \<Rightarrow> set_result" where
  "set_prototype h a p =
     (case deref h a of
        None \<Rightarrow> Refused
      | Some ob \<Rightarrow>
          if proto ob = p then Done h
          else if \<not> extensible ob \<or> a = ObjectPrototype \<or> on_chain (length h) h p a
          then Raised TypeError
          else Done (h[a := ob\<lparr>proto := p\<rparr>]))"

definition primitive_set :: "heap \<Rightarrow> addr \<Rightarrow> string \<Rightarrow> set_result" where
  "primitive_set h start k =
     (case find_slot h start k of
        Some (holder, ProtoAccessor) \<Rightarrow> Done h
      | Some (holder, Data v e w) \<Rightarrow> Refused
      | None \<Rightarrow> Refused)"

definition ordinary_set :: "heap \<Rightarrow> val \<Rightarrow> string \<Rightarrow> val \<Rightarrow> set_result" where
  "ordinary_set h base k v =
     (case base of
        Undefined \<Rightarrow> Raised TypeError
      | Null \<Rightarrow> Raised TypeError
      | Ref a \<Rightarrow>
          (case find_slot h a k of
             None \<Rightarrow> create_own h a k v
           | Some (holder, Data v0 e w) \<Rightarrow>
               if \<not> w then Refused
               else if holder = a then Done (set_own h a k (Data v e w))
               else create_own h a k v
           | Some (holder, ProtoAccessor) \<Rightarrow>
               (case v of
                  Ref p \<Rightarrow> set_prototype h a (Some p)
                | Null \<Rightarrow> set_prototype h a None
                | _ \<Rightarrow> Done h))
      | Bool b \<Rightarrow> primitive_set h BooleanPrototype k
      | Num n \<Rightarrow> primitive_set h NumberPrototype k
      | NaN \<Rightarrow> primitive_set h NumberPrototype k
      | Str s \<Rightarrow>
          (case string_own s k of
             Some v0 \<Rightarrow> Refused
           | None \<Rightarrow> primitive_set h StringPrototype k))"

text \<open>
  Non-strict code ignores a refused assignment; strict code turns it into a
  \<^verbatim>\<open>TypeError\<close>.  A throw leaves the store as it was.
\<close>

definition put :: "heap \<Rightarrow> val \<Rightarrow> string \<Rightarrow> val \<Rightarrow> error + heap" where
  "put h base k v =
     (case ordinary_set h base k v of
        Done h' \<Rightarrow> Inr h'
      | Refused \<Rightarrow> Inr h
      | Raised e \<Rightarrow> Inl e)"

definition put_strict :: "heap \<Rightarrow> val \<Rightarrow> string \<Rightarrow> val \<Rightarrow> error + heap" where
  "put_strict h base k v =
     (case ordinary_set h base k v of
        Done h' \<Rightarrow> Inr h'
      | Refused \<Rightarrow> Inl TypeError
      | Raised e \<Rightarrow> Inl e)"

subsection \<open>Operators and built-ins the code uses\<close>

definition typeof :: "heap \<Rightarrow> val \<Rightarrow> string" where
  "typeof h v =
     (case v of
        Undefined \<Rightarrow> ''undefined''
      | Null \<Rightarrow> ''object''
      | Bool b \<Rightarrow> ''boolean''
      | Num n \<Rightarrow> ''number''
      | NaN \<Rightarrow> ''number''
      | Str s \<Rightarrow> ''string''
      | Ref a \<Rightarrow>
          (case deref h a of
             None \<Rightarrow> ''object''
           | Some ob \<Rightarrow> if kind ob = Function then ''function'' else ''object''))"

definition truthy :: "val \<Rightarrow> bool" where
  "truthy v =
     (case v of
        Undefined \<Rightarrow> False
      | Null \<Rightarrow> False
      | Bool b \<Rightarrow> b
      | Num n \<Rightarrow> n \<noteq> 0
      | NaN \<Rightarrow> False
      | Str s \<Rightarrow> s \<noteq> []
      | Ref a \<Rightarrow> True)"

definition isArray :: "heap \<Rightarrow> val \<Rightarrow> bool" where
  "isArray h v =
     (case v of
        Ref a \<Rightarrow> (case deref h a of None \<Rightarrow> False | Some ob \<Rightarrow> kind ob = Array)
      | _ \<Rightarrow> False)"

text \<open>\<^verbatim>\<open>Object.keys(v)\<close>: the own enumerable keys; it throws on \<^verbatim>\<open>undefined\<close> and \<^verbatim>\<open>null\<close>.\<close>

definition Object_keys :: "heap \<Rightarrow> val \<Rightarrow> error + string list" where
  "Object_keys h v =
     (case v of
        Undefined \<Rightarrow> Inl TypeError
      | Null \<Rightarrow> Inl TypeError
      | Ref a \<Rightarrow> (case deref h a of None \<Rightarrow> Inr [] | Some ob \<Rightarrow> Inr (own_enumerable_keys ob))
      | Str s \<Rightarrow> Inr (map string_of_nat [0..<length s])
      | _ \<Rightarrow> Inr [])"

text \<open>
  The keys a \<^verbatim>\<open>for (key in v)\<close> loop visits: the own enumerable keys, then those of each
  object up the prototype chain, a key being skipped when an object nearer to \<open>v\<close> holds
  the same name (enumerable or not).  The list is taken when the loop starts, as V8 does;
  each key is checked again for presence when its turn comes (\<open>has_property\<close>).
\<close>

fun enum_chain :: "nat \<Rightarrow> heap \<Rightarrow> addr option \<Rightarrow> string list \<Rightarrow> string list" where
  "enum_chain 0 h p seen = []"
| "enum_chain (Suc n) h None seen = []"
| "enum_chain (Suc n) h (Some a) seen =
     (case deref h a of
        None \<Rightarrow> []
      | Some ob \<Rightarrow>
          filter (\<lambda>k. k \<notin> set seen \<and> enumerable_key ob k) (own_property_keys ob)
          @ enum_chain n h (proto ob) (seen @ own_property_keys ob))"

definition for_in_keys :: "heap \<Rightarrow> val \<Rightarrow> string list" where
  "for_in_keys h v =
     (case v of
        Undefined \<Rightarrow> []
      | Null \<Rightarrow> []
      | Ref a \<Rightarrow> enum_chain (length h) h (Some a) []
      | Bool b \<Rightarrow> enum_chain (length h) h (Some BooleanPrototype) []
      | Num n \<Rightarrow> enum_chain (length h) h (Some NumberPrototype) []
      | NaN \<Rightarrow> enum_chain (length h) h (Some NumberPrototype) []
      | Str s \<Rightarrow>
          map string_of_nat [0..<length s]
          @ enum_chain (length h) h (Some StringPrototype)
              (map string_of_nat [0..<length s] @ [''length'']))"

definition has_property :: "heap \<Rightarrow> val \<Rightarrow> string \<Rightarrow> bool" where
  "has_property h v k =
     (case v of
        Undefined \<Rightarrow> False
      | Null \<Rightarrow> False
      | Ref a \<Rightarrow> find_slot h a k \<noteq> None
      | Bool b \<Rightarrow> find_slot h BooleanPrototype k \<noteq> None
      | Num n \<Rightarrow> find_slot h NumberPrototype k \<noteq> None
      | NaN \<Rightarrow> find_slot h NumberPrototype k \<noteq> None
      | Str s \<Rightarrow> string_own s k \<noteq> None \<or> find_slot h StringPrototype k \<noteq> None)"

text \<open>
  \<^verbatim>\<open>Object.freeze(o)\<close>: the object stops being extensible and each of its data properties
  stops being writable.  The freeze is shallow.
\<close>

definition freeze_slot :: "slot \<Rightarrow> slot" where
  "freeze_slot s = (case s of Data v e w \<Rightarrow> Data v e False | ProtoAccessor \<Rightarrow> ProtoAccessor)"

definition freeze :: "heap \<Rightarrow> addr \<Rightarrow> heap" where
  "freeze h a =
     (case deref h a of
        None \<Rightarrow> h
      | Some ob \<Rightarrow>
          h[a := ob\<lparr>props := map (\<lambda>(k, s). (k, freeze_slot s)) (props ob), extensible := False\<rparr>])"


section \<open>Program state and results\<close>

text \<open>
  The state is the store and the security lines written to the console: those of
  \<^verbatim>\<open>console.warn\<close> in the patched server, the \<^verbatim>\<open>[BLOCKED]\<close> line of the concept demo and the
  two lines with which the demo reports on its assignment to the frozen \<^verbatim>\<open>Object.prototype\<close>.
  (The narration printed by the other calls of \<^verbatim>\<open>console.log\<close> is left out.)  A call either returns, throws, or is cut off
  when the nesting budget is used up: unbounded recursion ends, in JavaScript, with a stack
  overflow.  The state at that point is part of the result in all three cases.
\<close>

datatype verror =
    ForbiddenKey string          \<comment> \<open>\<^verbatim>\<open>Forbidden key: "k"\<close>\<close>
  | UnknownKey string            \<comment> \<open>\<^verbatim>\<open>Unknown key: "k" ... only allowed: ...\<close>\<close>
  | MustBeNumber string string   \<comment> \<open>\<^verbatim>\<open>"field" must be a number, got: type\<close>\<close>

datatype log_line =
    BlockedKey string            \<comment> \<open>\<^verbatim>\<open>[SECURITY] Blocked dangerous key: "k"\<close>\<close>
  | RejectedInput "verror list"  \<comment> \<open>\<^verbatim>\<open>[SECURITY] Rejected invalid input: ...\<close>\<close>
  | SkippedKey string            \<comment> \<open>\<^verbatim>\<open>[BLOCKED] Dangerous key detected and skipped: "k"\<close>\<close>
  | AfterFreezeAttempt val       \<comment> \<open>\<^verbatim>\<open>After freeze attempt: Object.prototype.isAdmin = v\<close>\<close>
  | TypeErrorThrown              \<comment> \<open>\<^verbatim>\<open>TypeError thrown: "..." - prototype is frozen!\<close>\<close>

record state =
  store :: heap
  console :: "log_line list"

datatype 'a outcome = Normal 'a | Throw error | OutOfFuel

definition warn :: "state \<Rightarrow> log_line \<Rightarrow> state" where
  "warn st l = st\<lparr>console := console st @ [l]\<rparr>"

section \<open>The unsafe merge (\<^verbatim>\<open>src/server-vulnerable.js\<close>, \<^verbatim>\<open>demos/concept-demo.js\<close>)\<close>

text \<open>
  \<^verbatim>\<open>
  function unsafeMerge(target, source) {
    for (const key in source) {
      if (typeof source[key] === 'object' && source[key] !== null) {
        if (!target[key]) target[key] = {};
        unsafeMerge(target[key], source[key]);
      } else {
        target[key] = source[key];
      }
    }
    return target;
  }
  \<close>
  The first argument of the model is the nesting budget.
\<close>

fun unsafeMerge :: "nat \<Rightarrow> state \<Rightarrow> val \<Rightarrow> val \<Rightarrow> val outcome \<times> state"
  and unsafeMerge_loop :: "nat \<Rightarrow> state \<Rightarrow> val \<Rightarrow> val \<Rightarrow> string list \<Rightarrow> val outcome \<times> state"
where
  "unsafeMerge 0 st target source = (OutOfFuel, st)"
| "unsafeMerge (Suc n) st target source =
     unsafeMerge_loop n st target source (for_in_keys (store st) source)"
| "unsafeMerge_loop n st target source [] = (Normal target, st)"
| "unsafeMerge_loop n st target source (key # keys) =
     (if \<not> has_property (store st) source key then unsafeMerge_loop n st target source keys
      else
        (case get (store st) source key of
           Inl e \<Rightarrow> (Throw e, st)
         | Inr sv \<Rightarrow>
             if typeof (store st) sv = ''object'' \<and> sv \<noteq> Null then
               (case get (store st) target key of
                  Inl e \<Rightarrow> (Throw e, st)
                | Inr tv \<Rightarrow>
                    (case (if \<not> truthy tv
                           then (let (a, h1) = alloc (store st) empty_object
                                 in put h1 target key (Ref a))
                           else Inr (store st)) of
                       Inl e \<Rightarrow> (Throw e, st)
                     | Inr h2 \<Rightarrow>
                         (case get h2 target key of
                            Inl e \<Rightarrow> (Throw e, st\<lparr>store := h2\<rparr>)
                          | Inr tv' \<Rightarrow>
                              (case get h2 source key of
                                 Inl e \<Rightarrow> (Throw e, st\<lparr>store := h2\<rparr>)
                               | Inr sv' \<Rightarrow>
                                   (case unsafeMerge n (st\<lparr>store := h2\<rparr>) tv' sv' of
                                      (Normal r, st') \<Rightarrow> unsafeMerge_loop n st' target source keys
                                    | (Throw e, st') \<Rightarrow> (Throw e, st')
                                    | (OutOfFuel, st') \<Rightarrow> (OutOfFuel, st'))))))
             else
               (case put (store st) target key sv of
                  Inl e \<Rightarrow> (Throw e, st)
                | Inr h' \<Rightarrow> unsafeMerge_loop n (st\<lparr>store := h'\<rparr>) target source keys)))"

section \<open>The safe merge (\<^verbatim>\<open>fixes/server-fixed.js\<close>)\<close>

text \<open>
  \<^verbatim>\<open>
  const DANGEROUS_KEYS = new Set(['__proto__', 'constructor', 'prototype']);

  function safeMerge(target, source) {
    for (const key of Object.keys(source)) {
      if (DANGEROUS_KEYS.has(key)) {
        console.warn(`[SECURITY] Blocked dangerous key: "${key}"`);
        continue;
      }
      if (typeof source[key] === 'object' && source[key] !== null &&
          !Array.isArray(source[key])) {
        if (!target[key] || typeof target[key] !== 'object') {
          target[key] = Object.create(null);
        }
        safeMerge(target[key], source[key]);
      } else {
        target[key] = source[key];
      }
    }
    return target;
  }
  \<close>
\<close>

definition DANGEROUS_KEYS :: "string set" where
  "DANGEROUS_KEYS = {''__proto__'', ''constructor'', ''prototype''}"

fun safeMerge :: "nat \<Rightarrow> state \<Rightarrow> val \<Rightarrow> val \<Rightarrow> val outcome \<times> state"
  and safeMerge_loop :: "nat \<Rightarrow> state \<Rightarrow> val \<Rightarrow> val \<Rightarrow> string list \<Rightarrow> val outcome \<times> state"
where
  "safeMerge 0 st target source = (OutOfFuel, st)"
| "safeMerge (Suc n) st target source =
     (case Object_keys (store st) source of
        Inl e \<Rightarrow> (Throw e, st)
      | Inr keys \<Rightarrow> safeMerge_loop n st target source keys)"
| "safeMerge_loop n st target source [] = (Normal target, st)"
| "safeMerge_loop n st target source (key # keys) =
     (if key \<in> DANGEROUS_KEYS
      then safeMerge_loop n (warn st (BlockedKey key)) target source keys
      else
        (case get (store st) source key of
           Inl e \<Rightarrow> (Throw e, st)
         | Inr sv \<Rightarrow>
             if typeof (store st) sv = ''object'' \<and> sv \<noteq> Null \<and> \<not> isArray (store st) sv then
               (case get (store st) target key of
                  Inl e \<Rightarrow> (Throw e, st)
                | Inr tv \<Rightarrow>
                    (case (if \<not> truthy tv \<or> typeof (store st) tv \<noteq> ''object''
                           then (let (a, h1) = alloc (store st) null_object
                                 in put h1 target key (Ref a))
                           else Inr (store st)) of
                       Inl e \<Rightarrow> (Throw e, st)
                     | Inr h2 \<Rightarrow>
                         (case get h2 target key of
                            Inl e \<Rightarrow> (Throw e, st\<lparr>store := h2\<rparr>)
                          | Inr tv' \<Rightarrow>
                              (case get h2 source key of
                                 Inl e \<Rightarrow> (Throw e, st\<lparr>store := h2\<rparr>)
                               | Inr sv' \<Rightarrow>
                                   (case safeMerge n (st\<lparr>store := h2\<rparr>) tv' sv' of
                                      (Normal r, st') \<Rightarrow> safeMerge_loop n st' target source keys
                                    | (Throw e, st') \<Rightarrow> (Throw e, st')
                                    | (OutOfFuel, st') \<Rightarrow> (OutOfFuel, st'))))))
             else
               (case put (store st) target key sv of
                  Inl e \<Rightarrow> (Throw e, st)
                | Inr h' \<Rightarrow> safeMerge_loop n (st\<lparr>store := h'\<rparr>) target source keys)))"


section \<open>The safe merge of the concept demo (\<^verbatim>\<open>demos/concept-demo.js\<close>)\<close>



section \<open>Request bodies: \<^verbatim>\<open>JSON.parse\<close> and \<^verbatim>\<open>express.json()\<close>\<close>

text \<open>
  A parsed document is a tree of fresh objects.  Every member of a JSON object becomes an own,
  enumerable, writable data property, also the member named \<^verbatim>\<open>__proto__\<close>; a repeated name
  keeps its first position and its last value.  Objects get \<^verbatim>\<open>Object.prototype\<close> as prototype,
  arrays \<^verbatim>\<open>Array.prototype\<close>.
\<close>

datatype json =
    JNull | JBool bool | JNum int | JStr string
  | JArr "json list" | JObj "(string \<times> json) list"

definition json_object :: "(string \<times> val) list \<Rightarrow> obj" where
  "json_object kvs =
     \<lparr>props = foldl (\<lambda>ps (k, v). set_prop k (Data v True True) ps) [] kvs,
      proto = Some ObjectPrototype, extensible = True, kind = Plain\<rparr>"

definition json_array :: "val list \<Rightarrow> obj" where
  "json_array vs =
     \<lparr>props = map (\<lambda>i. (string_of_nat i, Data (vs ! i) True True)) [0..<length vs]
              @ [(''length'', Data (Num (int (length vs))) False True)],
      proto = Some ArrayPrototype, extensible = True, kind = Array\<rparr>"

fun parse :: "json \<Rightarrow> heap \<Rightarrow> val \<times> heap"
  and parse_elems :: "json list \<Rightarrow> heap \<Rightarrow> val list \<times> heap"
  and parse_fields :: "(string \<times> json) list \<Rightarrow> heap \<Rightarrow> (string \<times> val) list \<times> heap"
where
  "parse JNull h = (Null, h)"
| "parse (JBool b) h = (Bool b, h)"
| "parse (JNum n) h = (Num n, h)"
| "parse (JStr s) h = (Str s, h)"
| "parse (JArr js) h =
     (let (vs, h1) = parse_elems js h; (a, h2) = alloc h1 (json_array vs) in (Ref a, h2))"
| "parse (JObj fs) h =
     (let (kvs, h1) = parse_fields fs h; (a, h2) = alloc h1 (json_object kvs) in (Ref a, h2))"
| "parse_elems [] h = ([], h)"
| "parse_elems (j # js) h =
     (let (v, h1) = parse j h; (vs, h2) = parse_elems js h1 in (v # vs, h2))"
| "parse_fields [] h = ([], h)"
| "parse_fields ((k, j) # fs) h =
     (let (v, h1) = parse j h; (kvs, h2) = parse_fields fs h1 in ((k, v) # kvs, h2))"

section \<open>The store at start-up\<close>

text \<open>
  The store a Node.js process starts with, as far as the merges can reach it from JSON data:
  \<^verbatim>\<open>Object.prototype\<close> with all its standard properties (none of them enumerable), the
  function objects they hold, and the prototypes of functions, arrays, numbers, strings and
  booleans.  The own methods of those other prototypes and the static methods of \<^verbatim>\<open>Object\<close>
  are left out.
\<close>

definition builtin_function :: "string \<Rightarrow> int \<Rightarrow> obj" where
  "builtin_function name arity =
     \<lparr>props = [(''length'', Data (Num arity) False False),
               (''name'', Data (Str name) False False)],
      proto = Some FunctionPrototype, extensible = True, kind = Function\<rparr>"

definition initial_heap :: heap where
  "initial_heap =
     [ \<comment> \<open>0: \<^verbatim>\<open>Object.prototype\<close>\<close>
       \<lparr>props = [(''constructor'', Data (Ref ObjectCtor) False True),
                 (''__defineGetter__'', Data (Ref 7) False True),
                 (''__defineSetter__'', Data (Ref 8) False True),
                 (''hasOwnProperty'', Data (Ref 9) False True),
                 (''__lookupGetter__'', Data (Ref 10) False True),
                 (''__lookupSetter__'', Data (Ref 11) False True),
                 (''isPrototypeOf'', Data (Ref 12) False True),
                 (''propertyIsEnumerable'', Data (Ref 13) False True),
                 (''toString'', Data (Ref 14) False True),
                 (''valueOf'', Data (Ref 15) False True),
                 (''__proto__'', ProtoAccessor),
                 (''toLocaleString'', Data (Ref 16) False True)],
        proto = None, extensible = True, kind = Plain\<rparr>,
       \<comment> \<open>1: \<^verbatim>\<open>Function.prototype\<close>\<close>
       \<lparr>props = [(''length'', Data (Num 0) False False), (''name'', Data (Str []) False False)],
        proto = Some ObjectPrototype, extensible = True, kind = Function\<rparr>,
       \<comment> \<open>2: \<^verbatim>\<open>Array.prototype\<close>\<close>
       \<lparr>props = [(''length'', Data (Num 0) False True)],
        proto = Some ObjectPrototype, extensible = True, kind = Array\<rparr>,
       \<comment> \<open>3: the constructor \<^verbatim>\<open>Object\<close>\<close>
       \<lparr>props = [(''length'', Data (Num 1) False False),
                 (''name'', Data (Str ''Object'') False False),
                 (''prototype'', Data (Ref ObjectPrototype) False False)],
        proto = Some FunctionPrototype, extensible = True, kind = Function\<rparr>,
       \<comment> \<open>4, 5, 6: the prototypes of numbers, strings and booleans\<close>
       \<lparr>props = [], proto = Some ObjectPrototype, extensible = True, kind = Plain\<rparr>,
       \<lparr>props = [(''length'', Data (Num 0) False False)],
        proto = Some ObjectPrototype, extensible = True, kind = Plain\<rparr>,
       \<lparr>props = [], proto = Some ObjectPrototype, extensible = True, kind = Plain\<rparr>,
       \<comment> \<open>7 to 16: the methods of \<^verbatim>\<open>Object.prototype\<close>\<close>
       builtin_function ''__defineGetter__'' 2,
       builtin_function ''__defineSetter__'' 2,
       builtin_function ''hasOwnProperty'' 1,
       builtin_function ''__lookupGetter__'' 1,
       builtin_function ''__lookupSetter__'' 1,
       builtin_function ''isPrototypeOf'' 1,
       builtin_function ''propertyIsEnumerable'' 1,
       builtin_function ''toString'' 0,
       builtin_function ''valueOf'' 0,
       builtin_function ''toLocaleString'' 0 ]"

definition initial_state :: state where
  "initial_state = \<lparr>store = initial_heap, console = []\<rparr>"

section \<open>The ambient guard\<close>

text \<open>
  \<^verbatim>\<open>Object.freeze(Object.prototype)\<close> is the first statement of the patched server.  The
  read-only check of the specification asks whether the three denied names still resolve,
  on the shared ancestor, to what they resolve to at start-up: \<^verbatim>\<open>__proto__\<close> to \<^verbatim>\<open>null\<close>,
  \<^verbatim>\<open>constructor\<close> to \<^verbatim>\<open>Object\<close>, \<^verbatim>\<open>prototype\<close> to \<^verbatim>\<open>undefined\<close>.
\<close>

definition install :: "heap \<Rightarrow> heap" where
  "install h = freeze h ObjectPrototype"

definition verify_ambient_clean :: "heap \<Rightarrow> bool" where
  "verify_ambient_clean h =
     (get h (Ref ObjectPrototype) ''__proto__'' = Inr Null
      \<and> get h (Ref ObjectPrototype) ''constructor'' = Inr (Ref ObjectCtor)
      \<and> get h (Ref ObjectPrototype) ''prototype'' = Inr Undefined)"

definition frozen :: "heap \<Rightarrow> addr \<Rightarrow> bool" where
  "frozen h a =
     (case deref h a of
        None \<Rightarrow> False
      | Some ob \<Rightarrow>
          \<not> extensible ob
          \<and> list_all (\<lambda>(k, s). case s of Data v e w \<Rightarrow> \<not> w | ProtoAccessor \<Rightarrow> True) (props ob))"

text \<open>
  The last part of the concept demo (a non-strict script, like the servers):
  \<^verbatim>\<open>
  Object.freeze(Object.prototype);
  try {
    Object.prototype.isAdmin = true; // This will throw in strict mode, silently fail otherwise
    console.log(`  After freeze attempt: Object.prototype.isAdmin = ${Object.prototype.isAdmin}`);
  } catch (e) {
    console.log(`  TypeError thrown: "${e.message}" - prototype is frozen!`);
  }
  \<close>
\<close>

definition freeze_demo :: "state \<Rightarrow> state" where
  "freeze_demo st =
     (let h1 = freeze (store st) ObjectPrototype in
        (case put h1 (Ref ObjectPrototype) ''isAdmin'' (Bool True) of
           Inl e \<Rightarrow> \<lparr>store = h1, console = console st @ [TypeErrorThrown]\<rparr>
         | Inr h2 \<Rightarrow>
             (case get h2 (Ref ObjectPrototype) ''isAdmin'' of
                Inl e \<Rightarrow> \<lparr>store = h2, console = console st @ [TypeErrorThrown]\<rparr>
              | Inr v \<Rightarrow> \<lparr>store = h2, console = console st @ [AfterFreezeAttempt v]\<rparr>)))"


section \<open>The routes\<close>

datatype reply =
    NotFound404
  | Invalid400 "verror list"
  | ProfileUpdated200 "(string \<times> val) list"
  | SettingsApplied200 val
  | AdminGranted200
  | AdminDenied403

subsection \<open>The admin check of the vulnerable server\<close>

text \<open>
  \<^verbatim>\<open>
  const user = {};
  if (user.isAdmin || user.role === 'admin') { ... access: 'GRANTED' ... }
  res.status(403).json({ access: 'DENIED', ... });
  \<close>
\<close>

definition api_admin :: "heap \<Rightarrow> reply \<times> heap" where
  "api_admin h =
     (let (user, h1) = alloc h empty_object in
        (if truthy (get_chain h1 (Ref user) user ''isAdmin'')
            \<or> get_chain h1 (Ref user) user ''role'' = Str ''admin''
         then AdminGranted200 else AdminDenied403, h1))"

subsection \<open>Input validation of the patched server\<close>




text \<open>
  \<^verbatim>\<open>
  function validateSettings(settings) {
    const errors = [];
    if (settings.timeout !== undefined && typeof settings.timeout !== 'number')
      errors.push(`"timeout" must be a number, got: ${typeof settings.timeout}`);
    if (settings.retries !== undefined && typeof settings.retries !== 'number')
      errors.push(`"retries" must be a number, got: ${typeof settings.retries}`);
    return errors;
  }
  \<close>
\<close>

definition must_be_number :: "heap \<Rightarrow> string \<Rightarrow> val \<Rightarrow> verror list" where
  "must_be_number h field v =
     (if v \<noteq> Undefined \<and> typeof h v \<noteq> ''number''
      then [MustBeNumber field (typeof h v)] else [])"

definition validateSettings :: "heap \<Rightarrow> val \<Rightarrow> error + verror list" where
  "validateSettings h settings =
     (case get h settings ''timeout'' of
        Inl e \<Rightarrow> Inl e
      | Inr t \<Rightarrow>
          (case get h settings ''retries'' of
             Inl e \<Rightarrow> Inl e
           | Inr r \<Rightarrow> Inr (must_be_number h ''timeout'' t @ must_be_number h ''retries'' r)))"

subsection \<open>\<^verbatim>\<open>POST /api/settings\<close>, patched\<close>

text \<open>
  \<^verbatim>\<open>
  const errors = validateSettings(req.body);
  if (errors.length > 0)
    return res.status(400).json({ error: 'Invalid settings', details: errors });
  const defaults = Object.assign(Object.create(null),
                                 { timeout: 30, retries: 3, debug: false });
  safeMerge(defaults, req.body);
  const timeout = defaults.timeout;
  const result = timeout * 1000;
  res.json({ message: 'Settings applied securely', timeout: result });
  \<close>
  The product converts its operand to a number.  The model converts the primitives; of the
  strings it reads the empty one and the plain decimal numerals and takes every other
  string, and every object, for \<^verbatim>\<open>NaN\<close>.
\<close>

definition times :: "val \<Rightarrow> int \<Rightarrow> val" where
  "times v k =
     (case v of
        Num n \<Rightarrow> Num (n * k)
      | Null \<Rightarrow> Num 0
      | Bool b \<Rightarrow> Num (if b then k else 0)
      | Str s \<Rightarrow> (case digits_val 0 s of Some n \<Rightarrow> Num (n * k) | None \<Rightarrow> NaN)
      | _ \<Rightarrow> NaN)"

definition settings_defaults :: obj where
  "settings_defaults =
     \<lparr>props = [(''timeout'', Data (Num 30) True True),
               (''retries'', Data (Num 3) True True),
               (''debug'', Data (Bool False) True True)],
      proto = None, extensible = True, kind = Plain\<rparr>"

definition api_settings :: "nat \<Rightarrow> state \<Rightarrow> val \<Rightarrow> reply outcome \<times> state" where
  "api_settings n st body =
     (case validateSettings (store st) body of
        Inl e \<Rightarrow> (Throw e, st)
      | Inr errors \<Rightarrow>
          if length errors > 0 then (Normal (Invalid400 errors), st)
          else
            (let (defaults, h1) = alloc (store st) settings_defaults in
               (case safeMerge n (st\<lparr>store := h1\<rparr>) (Ref defaults) body of
                  (Normal r, st') \<Rightarrow>
                    (case get (store st') (Ref defaults) ''timeout'' of
                       Inl e \<Rightarrow> (Throw e, st')
                     | Inr timeout \<Rightarrow> (Normal (SettingsApplied200 (times timeout 1000)), st'))
                | (Throw e, st') \<Rightarrow> (Throw e, st')
                | (OutOfFuel, st') \<Rightarrow> (OutOfFuel, st'))))"

subsection \<open>\<^verbatim>\<open>POST /api/update-profile\<close>, patched\<close>




definition fixed_heap :: heap where
  "fixed_heap =
     install initial_heap
     @ [\<lparr>props = [(''alice'', Data (Ref 18) True True), (''bob'', Data (Ref 19) True True)],
         proto = None, extensible = True, kind = Plain\<rparr>,
        \<lparr>props = [(''username'', Data (Str ''alice'') True True),
                  (''role'', Data (Str ''user'') True True)],
         proto = None, extensible = True, kind = Plain\<rparr>,
        \<lparr>props = [(''username'', Data (Str ''bob'') True True),
                  (''role'', Data (Str ''user'') True True)],
         proto = None, extensible = True, kind = Plain\<rparr>]"

definition fixed_state :: state where
  "fixed_state = \<lparr>store = fixed_heap, console = []\<rparr>"

section \<open>Auxiliary definitions for the statements\<close>

text \<open>Merging a freshly parsed request body into a target.\<close>

definition safeMerge_json :: "nat \<Rightarrow> heap \<Rightarrow> val \<Rightarrow> json \<Rightarrow> val outcome \<times> state" where
  "safeMerge_json n h target j =
     safeMerge n \<lparr>store = snd (parse j h), console = []\<rparr> target (fst (parse j h))"

definition unsafeMerge_json :: "nat \<Rightarrow> heap \<Rightarrow> val \<Rightarrow> json \<Rightarrow> val outcome \<times> state" where
  "unsafeMerge_json n h target j =
     unsafeMerge n \<lparr>store = snd (parse j h), console = []\<rparr> target (fst (parse j h))"



text \<open>The request of the type-confusion attack, as the patched settings route receives it.\<close>

definition corrupted_body :: json where
  "corrupted_body = JObj [(''timeout'', JStr ''CORRUPTED'')]"

definition corrupted_request :: state where
  "corrupted_request = \<lparr>store = snd (parse corrupted_body fixed_heap), console = []\<rparr>"

text \<open>The payload of the privilege-escalation attack.\<close>

definition admin_payload :: json where
  "admin_payload = JObj [(''__proto__'', JObj [(''isAdmin'', JBool True)])]"

text \<open>The profile object of the concept demo, in the start-up store (at address 17).\<close>

definition demo_heap :: heap where
  "demo_heap =
     snd (parse (JObj [(''username'', JStr ''alice''), (''email'', JStr ''alice@example.com'')])
            initial_heap)"

text \<open>
  No property with a name outside the deny-list holds a reference to the shared ancestor
  (and the accessor sits only under a denied name).  This is true of the start-up store and
  of everything \<^verbatim>\<open>JSON.parse\<close> builds.
\<close>

definition ancestor_hidden :: "heap \<Rightarrow> bool" where
  "ancestor_hidden h =
     list_all (\<lambda>ob. list_all (\<lambda>(k, s). k \<in> DANGEROUS_KEYS \<or>
          (case s of Data v e w \<Rightarrow> v \<noteq> Ref ObjectPrototype | ProtoAccessor \<Rightarrow> False))
        (props ob)) h"

text \<open>
  Between two stores, no object has gained, lost or changed an own property with a denied
  name, and the objects created in between have none.
\<close>

definition denied_untouched :: "heap \<Rightarrow> heap \<Rightarrow> bool" where
  "denied_untouched h h' \<longleftrightarrow>
     length h \<le> length h'
     \<and> (\<forall>a k. k \<in> DANGEROUS_KEYS \<longrightarrow>
           (a < length h \<longrightarrow> map_of (props (h' ! a)) k = map_of (props (h ! a)) k)
         \<and> (length h \<le> a \<longrightarrow> a < length h' \<longrightarrow> map_of (props (h' ! a)) k = None))"

text \<open>The value of \<^verbatim>\<open>v.k1.k2...\<close> in a store.\<close>

fun get_path :: "heap \<Rightarrow> val \<Rightarrow> string list \<Rightarrow> error + val" where
  "get_path h v [] = Inr v"
| "get_path h v (k # ks) = (case get h v k of Inl e \<Rightarrow> Inl e | Inr v' \<Rightarrow> get_path h v' ks)"




text \<open>A profile update with a denied key at the top level.\<close>

definition top_attack_updates :: json where
  "top_attack_updates = JObj [(''__proto__'', JObj [(''isAdmin'', JBool True)]), (''bio'', JStr ''hi'')]"

definition top_attack_request :: state where
  "top_attack_request = \<lparr>store = snd (parse top_attack_updates fixed_heap), console = []\<rparr>"

text \<open>The attack payload, parsed into the store of the concept demo (no freeze there).\<close>

definition demo_request :: state where
  "demo_request = \<lparr>store = snd (parse admin_payload demo_heap), console = []\<rparr>"

text \<open>A profile update carrying an array, merged into the record of alice.\<close>

definition tags_body :: json where
  "tags_body = JObj [(''tags'', JArr [JNum 1, JNum 2])]"

definition tags_run :: "val outcome \<times> state" where
  "tags_run = safeMerge_json 2 fixed_heap (Ref 18) tags_body"

text \<open>How the loop of \<^verbatim>\<open>safeMerge\<close> goes on after a nested call.\<close>

definition and_then ::
  "val outcome \<times> state \<Rightarrow> (state \<Rightarrow> val outcome \<times> state) \<Rightarrow> val outcome \<times> state" where
  "and_then res rest =
     (case res of
        (Normal x, st1) \<Rightarrow> rest st1
      | (Throw e, st1) \<Rightarrow> (Throw e, st1)
      | (OutOfFuel, st1) \<Rightarrow> (OutOfFuel, st1))"

text \<open>
  The store after \<^verbatim>\<open>target[k] = Object.create(null)\<close> has been carried out on the object at
  \<open>ta\<close>: the new object sits at the first free address, and the own property \<open>k\<close> of the
  target refers to it (\<open>e\<close> is the enumerable flag of that property).
\<close>

definition fresh_child :: "heap \<Rightarrow> addr \<Rightarrow> string \<Rightarrow> bool \<Rightarrow> heap" where
  "fresh_child h ta k e = set_own (h @ [null_object]) ta k (Data (Ref (length h)) e True)"

text \<open>A profile update with a nested object, as a request to the patched server.\<close>

definition bio_body :: json where
  "bio_body = JObj [(''bio'', JObj [(''y'', JNum 2)])]"

definition bio_request :: state where
  "bio_request = \<lparr>store = snd (parse bio_body fixed_heap), console = []\<rparr>"

text \<open>
  Scenario C of the specification: the source \<^verbatim>\<open>{"a":{"b":{"c":1}}}\<close> merged into an empty
  target \<^verbatim>\<open>{}\<close> (at address 17 of the start-up store).
\<close>

definition scenario_c_body :: json where
  "scenario_c_body = JObj [(''a'', JObj [(''b'', JObj [(''c'', JNum 1)])])]"

definition scenario_c_run :: "val outcome \<times> state" where
  "scenario_c_run = safeMerge_json 3 (initial_heap @ [empty_object]) (Ref 17) scenario_c_body"

text \<open>
  A source nested \<open>d\<close> levels deep, \<^verbatim>\<open>{"a":{"a": ... {"c":1}}}\<close>, and what it looks like in
  a store.
\<close>

fun nest :: "nat \<Rightarrow> json" where
  "nest 0 = JObj [(''c'', JNum 1)]"
| "nest (Suc d) = JObj [(''a'', nest d)]"

fun is_nest :: "heap \<Rightarrow> addr \<Rightarrow> nat \<Rightarrow> bool" where
  "is_nest h sa 0 = (sa < length h \<and> props (h ! sa) = [(''c'', Data (Num 1) True True)])"
| "is_nest h sa (Suc d) =
     (sa < length h \<and>
      (case props (h ! sa) of
         [] \<Rightarrow> False
       | p # ps \<Rightarrow>
           ps = [] \<and> fst p = ''a'' \<and>
           (case snd p of
              ProtoAccessor \<Rightarrow> False
            | Data v e w \<Rightarrow>
                e \<and> (case v of
                       Ref sb \<Rightarrow> sb < length h \<and> kind (h ! sb) = Plain \<and> is_nest h sb d
                     | _ \<Rightarrow> False))))"

text \<open>
  A set \<open>X\<close> of objects, the target \<open>t\<close> of a merge among them, is shielded when no object
  the merge can reach refers to \<open>X\<close>: neither the target itself nor any object outside
  \<open>X\<close> has a prototype link or a property value pointing into \<open>X\<close>.  (The other objects of
  \<open>X\<close> may refer to the target, as the user table refers to a user record.)
\<close>

definition no_ref_into :: "addr set \<Rightarrow> obj \<Rightarrow> bool" where
  "no_ref_into X ob =
     ((case proto ob of None \<Rightarrow> True | Some p \<Rightarrow> p \<notin> X)
      \<and> list_all (\<lambda>(k, s). case s of
                     Data v e w \<Rightarrow> (case v of Ref b \<Rightarrow> b \<notin> X | _ \<Rightarrow> True)
                   | ProtoAccessor \<Rightarrow> True) (props ob))"

definition shielded :: "heap \<Rightarrow> addr list \<Rightarrow> addr \<Rightarrow> bool" where
  "shielded h X t =
     (t \<in> set X \<and> list_all (\<lambda>x. x < length h) X
      \<and> NumberPrototype \<notin> set X \<and> StringPrototype \<notin> set X \<and> BooleanPrototype \<notin> set X
      \<and> list_all (\<lambda>a. (a \<in> set X \<and> a \<noteq> t) \<or> no_ref_into (set X) (h ! a)) [0..<length h])"

definition outside :: "addr list \<Rightarrow> val \<Rightarrow> bool" where
  "outside X v = (\<forall>b. v = Ref b \<longrightarrow> b \<notin> set X)"

text \<open>
  The merge of \<^verbatim>\<open>{"toString": {"polluted": true}}\<close> into an ordinary empty object (address
  17), with the guard installed and without it.
\<close>

definition shadow_body :: json where
  "shadow_body = JObj [(''toString'', JObj [(''polluted'', JBool True)])]"

definition shadow_run_frozen :: "val outcome \<times> state" where
  "shadow_run_frozen = safeMerge_json 3 (install initial_heap @ [empty_object]) (Ref 17) shadow_body"

definition shadow_run_unfrozen :: "val outcome \<times> state" where
  "shadow_run_unfrozen = safeMerge_json 3 (initial_heap @ [empty_object]) (Ref 17) shadow_body"

subsection \<open>Request bodies in the store\<close>

text \<open>
  The predicates below describe a store into which a request body has just been parsed, and
  are used to show that the safe merge of such a body comes to an end.

  \<open>guarded h X rd\<close>: the objects of \<open>X\<close> are allocated, none of them is a prototype of a
  primitive, and no object that \<open>rd\<close> allows to be read refers to an object of \<open>X\<close>.
\<close>

definition guarded :: "heap \<Rightarrow> addr list \<Rightarrow> (addr \<Rightarrow> bool) \<Rightarrow> bool" where
  "guarded h X rd \<longleftrightarrow>
     (\<forall>x \<in> set X. x < length h)
     \<and> NumberPrototype \<notin> set X \<and> StringPrototype \<notin> set X \<and> BooleanPrototype \<notin> set X
     \<and> (\<forall>a. a \<notin> set X \<longrightarrow> rd a)
     \<and> (\<forall>a < length h. rd a \<longrightarrow> no_ref_into (set X) (h ! a))"

text \<open>
  The test the safe merge makes before it descends:
  \<^verbatim>\<open>typeof v === 'object' && v !== null && !Array.isArray(v)\<close>.
\<close>

definition is_container :: "heap \<Rightarrow> val \<Rightarrow> bool" where
  "is_container h v \<longleftrightarrow> typeof h v = ''object'' \<and> v \<noteq> Null \<and> \<not> isArray h v"

text \<open>
  A later store has every object of an earlier one, of the same kind.
\<close>

definition kinds_kept :: "heap \<Rightarrow> heap \<Rightarrow> bool" where
  "kinds_kept h h' \<longleftrightarrow> length h \<le> length h' \<and> (\<forall>a < length h. kind (h' ! a) = kind (h ! a))"

text \<open>
  \<open>sealed h X\<close>: the objects of \<open>X\<close> are plain objects that only objects of \<open>X\<close> refer to.
\<close>

definition sealed :: "heap \<Rightarrow> addr list \<Rightarrow> bool" where
  "sealed h X \<longleftrightarrow> guarded h X (\<lambda>a. a \<notin> set X) \<and> (\<forall>x \<in> set X. kind (h ! x) = Plain)"

text \<open>
  \<open>spine h X v n\<close>: \<open>v\<close> is an object of \<open>X\<close>, and so is every value under it that the merge
  descends into, down to fewer than \<open>n\<close> levels.
\<close>

fun spine :: "heap \<Rightarrow> addr list \<Rightarrow> val \<Rightarrow> nat \<Rightarrow> bool" where
  "spine h X v 0 = False"
| "spine h X v (Suc n) =
     (\<exists>a. v = Ref a \<and> a \<in> set X \<and>
        (\<forall>k c e w. (k, Data c e w) \<in> set (props (h ! a)) \<longrightarrow> k \<notin> DANGEROUS_KEYS \<longrightarrow>
           is_container h c \<longrightarrow> spine h X c n))"

text \<open>
  The nesting depth of a JSON value, counting objects only: the merge does not descend into
  an array.
\<close>

fun depth :: "json \<Rightarrow> nat" and depth_fields :: "(string \<times> json) list \<Rightarrow> nat" where
  "depth (JObj fs) = Suc (depth_fields fs)"
| "depth JNull = 0"
| "depth (JBool b) = 0"
| "depth (JNum n) = 0"
| "depth (JStr s) = 0"
| "depth (JArr js) = 0"
| "depth_fields [] = 0"
| "depth_fields ((k, j) # fs) = max (depth j) (depth_fields fs)"

text \<open>
  A store is closed when every reference held in it is to an allocated object.
\<close>

definition refs_below :: "nat \<Rightarrow> obj \<Rightarrow> bool" where
  "refs_below n ob =
     ((case proto ob of None \<Rightarrow> True | Some p \<Rightarrow> p < n)
      \<and> list_all (\<lambda>(k, s). case s of
                     Data v e w \<Rightarrow> (case v of Ref b \<Rightarrow> b < n | _ \<Rightarrow> True)
                   | ProtoAccessor \<Rightarrow> True) (props ob))"

definition closed_store :: "heap \<Rightarrow> bool" where
  "closed_store h \<longleftrightarrow> list_all (refs_below (length h)) h"

text \<open>
  \<open>lower lo ob\<close>: apart from the built-in prototypes, \<open>ob\<close> refers to no object below
  address \<open>lo\<close>.  \<open>grows h h1\<close>: the store \<open>h1\<close> extends \<open>h\<close> by objects that refer to each other
  only, and is closed.  \<open>fresh_val h h1 v\<close>: if \<open>v\<close> is a reference, it is to one of the added
  objects.
\<close>

definition lower :: "nat \<Rightarrow> obj \<Rightarrow> bool" where
  "lower lo ob \<longleftrightarrow> no_ref_into {b. BooleanPrototype < b \<and> b < lo} ob"

definition grows :: "heap \<Rightarrow> heap \<Rightarrow> bool" where
  "grows h h1 \<longleftrightarrow>
     length h \<le> length h1 \<and> (\<forall>a < length h. h1 ! a = h ! a) \<and> closed_store h1
     \<and> (\<forall>a. length h \<le> a \<longrightarrow> a < length h1 \<longrightarrow> lower (length h) (h1 ! a))"

definition fresh_val :: "heap \<Rightarrow> heap \<Rightarrow> val \<Rightarrow> bool" where
  "fresh_val h h1 v \<longleftrightarrow> (\<forall>b. v = Ref b \<longrightarrow> length h \<le> b \<and> b < length h1)"

definition well_formed :: "heap \<Rightarrow> bool" where
  "well_formed h \<longleftrightarrow> BooleanPrototype < length h \<and> closed_store h"

text \<open>
  \<open>spined h h1 X\<close>: \<open>X\<close> lists plain objects added to \<open>h\<close> that no object outside \<open>X\<close> refers
  to.
\<close>

definition spined :: "heap \<Rightarrow> heap \<Rightarrow> addr list \<Rightarrow> bool" where
  "spined h h1 X \<longleftrightarrow>
     set X \<subseteq> {length h ..< length h1} \<and> (\<forall>x \<in> set X. kind (h1 ! x) = Plain)
     \<and> (\<forall>a < length h1. a \<notin> set X \<longrightarrow> no_ref_into (set X) (h1 ! a))"

subsection \<open>Objects of scalar fields under a path of keys\<close>




text \<open>
  A target as the patched server merges into: a plain object (not an array, not a function)
  without prototype, extensible, all of whose own properties are writable data properties.
\<close>

definition merge_ready :: "heap \<Rightarrow> addr \<Rightarrow> bool" where
  "merge_ready h t =
     (case deref h t of
        None \<Rightarrow> False
      | Some ob \<Rightarrow>
          kind ob = Plain \<and> proto ob = None \<and> extensible ob
          \<and> list_all (\<lambda>(k, s). case s of Data v e w \<Rightarrow> w | ProtoAccessor \<Rightarrow> False) (props ob))"

text \<open>
  A source object all of whose own properties, the ones with a denied name apart, are data
  properties that hold a value the merge does not descend into.  Nothing is asked of its
  prototype chain.
\<close>

definition flat_source :: "heap \<Rightarrow> addr \<Rightarrow> bool" where
  "flat_source h s =
     (case deref h s of
        None \<Rightarrow> False
      | Some ob \<Rightarrow>
          list_all (\<lambda>(k, sl). k \<in> DANGEROUS_KEYS
                     \<or> (case sl of Data v e w \<Rightarrow> \<not> is_container h v | ProtoAccessor \<Rightarrow> False))
            (props ob))"





text \<open>
  The polluted store of the demo (\<^verbatim>\<open>Object.prototype\<close> holds an enumerable \<^verbatim>\<open>isAdmin\<close>), a fresh
  target \<^verbatim>\<open>Object.create(null)\<close> at address 20, and a parsed source
  \<^verbatim>\<open>{"bio": "x", "__proto__": 5, "nick": "al"}\<close> at address 21, which inherits \<^verbatim>\<open>isAdmin\<close>.
\<close>

definition inherit_request :: state where
  "inherit_request =
     \<lparr>store = snd (parse (JObj [(''bio'', JStr ''x''), (''__proto__'', JNum 5), (''nick'', JStr ''al'')])
                      (store (snd (unsafeMerge_json 2 demo_heap (Ref 17) admin_payload))
                       @ [null_object])),
      console = []\<rparr>"

text \<open>
  \<open>extends h h1\<close>: the store \<open>h1\<close> is \<open>h\<close> with objects added at its end.
  \<open>own_path h lo a ks b\<close>: from the object at \<open>a\<close>, the own properties \<open>ks\<close> lead, one
  after the other, to the object at \<open>b\<close>, through objects at addresses from \<open>lo\<close> on.
\<close>

definition extends :: "heap \<Rightarrow> heap \<Rightarrow> bool" where
  "extends h h1 \<longleftrightarrow> length h \<le> length h1 \<and> (\<forall>a < length h. h1 ! a = h ! a)"


section \<open>Basic facts about the store\<close>

lemma map_of_set_prop: "map_of (set_prop k s ps) = (map_of ps)(k \<mapsto> s)"
  by (induction ps) (auto simp: fun_eq_iff)

lemma deref_Some: "deref h a = Some ob \<longleftrightarrow> a < length h \<and> ob = h ! a"
  by (auto simp: deref_def)

lemma deref_None: "deref h a = None \<longleftrightarrow> \<not> a < length h"
  by (auto simp: deref_def)

lemma find_from_Some_deref:
  "find_from n h a k = Some (b, s) \<Longrightarrow> b < length h \<and> map_of (props (h ! b)) k = Some s"
  by (induction n arbitrary: a) (auto simp: deref_Some split: option.splits)

lemma find_slot_Some_deref:
  "find_slot h a k = Some (b, s) \<Longrightarrow> b < length h \<and> map_of (props (h ! b)) k = Some s"
  unfolding find_slot_def by (rule find_from_Some_deref)

lemma length_set_own [simp]: "length (set_own h a k s) = length h"
  by (simp add: set_own_def)

lemma set_own_other: "b \<noteq> a \<Longrightarrow> set_own h a k s ! b = h ! b"
  by (simp add: set_own_def)

lemma set_own_same:
  "a < length h \<Longrightarrow> set_own h a k s ! a = (h ! a)\<lparr>props := set_prop k s (props (h ! a))\<rparr>"
  by (simp add: set_own_def)

lemma create_own_Done:
  "create_own h a k v = Done h' \<Longrightarrow>
     a < length h \<and> extensible (h ! a) \<and> h' = set_own h a k (Data v True True)"
  by (auto simp: create_own_def deref_Some split: option.splits if_splits)

lemma set_prototype_Done:
  "set_prototype h a p = Done h' \<Longrightarrow>
     a < length h \<and> (h' = h \<or> (extensible (h ! a) \<and> a \<noteq> ObjectPrototype
                                \<and> h' = h[a := (h ! a)\<lparr>proto := p\<rparr>]))"
  by (auto simp: set_prototype_def deref_Some split: option.splits if_splits)

lemma primitive_set_Done: "primitive_set h a k = Done h' \<Longrightarrow> h' = h"
  by (auto simp: primitive_set_def split: option.splits slot.splits)

text \<open>
  Every accepted assignment either leaves the store as it is, or sets the own data property
  \<open>k\<close> of the receiver, or changes the prototype link of the receiver.
\<close>

lemma ordinary_set_Done:
  assumes "ordinary_set h base k v = Done h'"
  shows "h' = h
    \<or> (\<exists>a e. base = Ref a \<and> a < length h \<and> h' = set_own h a k (Data v e True)
          \<and> (extensible (h ! a) \<or> (\<exists>v0. map_of (props (h ! a)) k = Some (Data v0 e True))))
    \<or> (\<exists>a p. base = Ref a \<and> a < length h \<and> extensible (h ! a) \<and> a \<noteq> ObjectPrototype
          \<and> h' = h[a := (h ! a)\<lparr>proto := p\<rparr>] \<and> (p = None \<or> (\<exists>q. p = Some q \<and> v = Ref q)))"
proof (cases base)
  case (Ref a)
  show ?thesis
  proof (cases "find_slot h a k")
    case None
    with Ref assms have "create_own h a k v = Done h'" by (simp add: ordinary_set_def)
    from create_own_Done[OF this] Ref show ?thesis by blast
  next
    case (Some hs)
    obtain holder s where hs: "hs = (holder, s)" by (cases hs)
    show ?thesis
    proof (cases s)
      case (Data v0 e w)
      with Some hs Ref assms have w: "w" and
        d: "(holder = a \<and> h' = set_own h a k (Data v e w))
            \<or> (holder \<noteq> a \<and> create_own h a k v = Done h')"
        by (auto simp: ordinary_set_def split: if_splits)
      from find_slot_Some_deref Some hs Data
      have ho: "holder < length h" "map_of (props (h ! holder)) k = Some (Data v0 e w)" by auto
      from d show ?thesis
      proof
        assume "holder = a \<and> h' = set_own h a k (Data v e w)"
        with ho w Ref show ?thesis by auto
      next
        assume "holder \<noteq> a \<and> create_own h a k v = Done h'"
        then have "create_own h a k v = Done h'" by simp
        from create_own_Done[OF this] Ref show ?thesis by blast
      qed
    next
      case ProtoAccessor
      with Some hs Ref assms
      have "h' = h \<or> (\<exists>p. set_prototype h a p = Done h' \<and> (p = None \<or> (\<exists>q. p = Some q \<and> v = Ref q)))"
        by (auto simp: ordinary_set_def split: val.splits)
      then show ?thesis using Ref by (auto dest!: set_prototype_Done)
    qed
  qed
qed (use assms in \<open>auto simp: ordinary_set_def dest!: primitive_set_Done split: option.splits\<close>)

lemma frozen_D:
  "frozen h a \<Longrightarrow> a < length h \<and> \<not> extensible (h ! a)
     \<and> (\<forall>k v e w. map_of (props (h ! a)) k = Some (Data v e w) \<longrightarrow> \<not> w)"
  by (auto simp: frozen_def deref_Some list_all_iff split: option.splits dest!: map_of_SomeD)

lemma ordinary_set_frozen:
  assumes "frozen h a" "ordinary_set h (Ref a) k v = Done h'"
  shows "h' = h"
  using ordinary_set_Done[OF assms(2)] frozen_D[OF assms(1)] by auto

lemma ordinary_set_frozen_refused:
  assumes "frozen h a" "\<forall>holder. find_slot h a k \<noteq> Some (holder, ProtoAccessor)"
  shows "ordinary_set h (Ref a) k v = Refused"
proof (cases "find_slot h a k")
  case None
  with frozen_D[OF assms(1)] show ?thesis
    by (simp add: ordinary_set_def create_own_def deref_def)
next
  case (Some hs)
  obtain holder s where hs: "hs = (holder, s)" by (cases hs)
  with Some assms(2) obtain v0 e w where s: "s = Data v0 e w" by (cases s) auto
  from find_slot_Some_deref Some hs s
  have "map_of (props (h ! holder)) k = Some (Data v0 e w)" by auto
  with frozen_D[OF assms(1)] have "holder = a \<longrightarrow> \<not> w" by auto
  with Some hs s frozen_D[OF assms(1)] show ?thesis
    by (auto simp: ordinary_set_def create_own_def deref_def)
qed

section \<open>C7: assignments to the frozen shared ancestor\<close>

text \<open>
  C7 says that, once the guard is installed, every attempt to set a field on the shared
  ancestor raises an error; the patched server says the same where it installs the guard
  (``Any attempt to set properties on it will throw TypeError'').  The scripts of the
  repository are non-strict, and there the assignment returns normally and changes nothing.
  The theorem runs the last part of the concept demo from the start-up store: after the
  freeze, \<^verbatim>\<open>Object.prototype.isAdmin = true\<close> does not throw, the store is the frozen store, and
  the script prints \<^verbatim>\<open>After freeze attempt: Object.prototype.isAdmin = undefined\<close>, never the
  line of its \<^verbatim>\<open>catch\<close> branch.  The same assignment in strict code would raise the
  \<^verbatim>\<open>TypeError\<close>; in non-strict code only an assignment of another prototype through the
  accessor \<^verbatim>\<open>__proto__\<close> does.
\<close>

theorem C7_freeze_attempt_is_silent:
  "frozen (install initial_heap) ObjectPrototype
   \<and> freeze_demo initial_state
       = \<lparr>store = install initial_heap, console = [AfterFreezeAttempt Undefined]\<rparr>
   \<and> put (install initial_heap) (Ref ObjectPrototype) ''isAdmin'' (Bool True)
       = Inr (install initial_heap)
   \<and> put_strict (install initial_heap) (Ref ObjectPrototype) ''isAdmin'' (Bool True)
       = Inl TypeError
   \<and> put (install initial_heap) (Ref ObjectPrototype) ''__proto__'' (Ref 14) = Inl TypeError"
  by code_simp

text \<open>
  In general: once \<^verbatim>\<open>Object.prototype\<close> is frozen, no assignment to one of its fields changes
  the store; when the field is not the accessor \<^verbatim>\<open>__proto__\<close>, the assignment is silently
  ignored in non-strict code and raises a \<^verbatim>\<open>TypeError\<close> in strict code.
\<close>

lemma frozen_ancestor_put:
  assumes "frozen h ObjectPrototype"
  shows "(\<forall>h'. put h (Ref ObjectPrototype) k v = Inr h' \<longrightarrow> h' = h)
    \<and> (\<forall>h'. put_strict h (Ref ObjectPrototype) k v = Inr h' \<longrightarrow> h' = h)
    \<and> ((\<forall>holder. find_slot h ObjectPrototype k \<noteq> Some (holder, ProtoAccessor)) \<longrightarrow>
          put h (Ref ObjectPrototype) k v = Inr h
          \<and> put_strict h (Ref ObjectPrototype) k v = Inl TypeError)"
  using ordinary_set_frozen[OF assms, of k v] ordinary_set_frozen_refused[OF assms, of k v]
  by (auto simp: put_def put_strict_def split: set_result.splits)

section \<open>C5: the type guard of the settings route\<close>

lemma get_Inr_again: "get h base k = Inr v \<Longrightarrow> \<exists>r. get h base k' = Inr r"
  by (cases base) (auto simp: get_def split: option.splits)

text \<open>
  C5: when the \<^verbatim>\<open>timeout\<close> of the request body is present and is not a number (the string
  \<^verbatim>\<open>CORRUPTED\<close>, but also a numeric string: nothing is coerced), the patched settings route
  answers 400 with the error ``"timeout" must be a number'' first in the list, and the state
  after the request is the state before it: nothing was merged, no value of any object
  changed.
\<close>

theorem C5_settings_type_guard:
  assumes "get (store st) body ''timeout'' = Inr t"
    and "t \<noteq> Undefined" and "typeof (store st) t \<noteq> ''number''"
  shows "\<exists>rest. api_settings n st body
           = (Normal (Invalid400 (MustBeNumber ''timeout'' (typeof (store st) t) # rest)), st)"
proof -
  from get_Inr_again[OF assms(1)] obtain r where
    r: "get (store st) body ''retries'' = Inr r" by blast
  with assms show ?thesis
    by (simp add: api_settings_def validateSettings_def must_be_number_def)
qed

theorem C5_settings_type_guard_witness:
  "get (store corrupted_request) (fst (parse corrupted_body fixed_heap)) ''timeout''
     = Inr (Str ''CORRUPTED'')
   \<and> api_settings 5 corrupted_request (fst (parse corrupted_body fixed_heap))
     = (Normal (Invalid400 [MustBeNumber ''timeout'' ''string'']), corrupted_request)"
proof -
  have g: "get (store corrupted_request) (fst (parse corrupted_body fixed_heap)) ''timeout''
     = Inr (Str ''CORRUPTED'')" by code_simp
  have t: "typeof (store corrupted_request) (Str ''CORRUPTED'') \<noteq> ''number''" by code_simp
  have e: "api_settings 5 corrupted_request (fst (parse corrupted_body fixed_heap))
     = (Normal (Invalid400 [MustBeNumber ''timeout'' ''string'']), corrupted_request)"
    by code_simp
  from C5_settings_type_guard[OF g _ t, of 5] g e show ?thesis by simp
qed

section \<open>The attack payload in the store\<close>

lemma order_keys_proto: "order_keys [''__proto__''] = [''__proto__'']" by code_simp
lemma order_keys_isAdmin: "order_keys [''isAdmin''] = [''isAdmin'']" by code_simp

lemma filter_conj_empty: "filter P xs = [] \<Longrightarrow> filter (\<lambda>k. Q k \<and> P k) xs = []"
  by (induction xs) (auto split: if_splits)

lemma enum_chain_None [simp]: "enum_chain n h None seen = []"
  by (cases n) auto

lemma json_object_single [simp]:
  "props (json_object [(k, v)]) = [(k, Data v True True)]"
  "proto (json_object kvs) = Some ObjectPrototype"
  "kind (json_object kvs) = Plain"
  "extensible (json_object kvs)"
  by (simp_all add: json_object_def)

lemma own_keys_single:
  "own_property_keys (json_object [(k, v)]) = order_keys [k]"
  "enumerable_key (json_object [(k, v)]) k' = (k' = k)"
  by (auto simp: own_property_keys_def enumerable_key_def slot_enumerable_def)

lemma parse_admin_payload:
  "parse admin_payload h =
     (Ref (Suc (length h)),
      h @ [json_object [(''isAdmin'', Bool True)], json_object [(''__proto__'', Ref (length h))]])"
  by (simp add: admin_payload_def alloc_def)

section \<open>C10: the unsafe merge pollutes the shared ancestor\<close>

text \<open>
  C10: take any store in which \<^verbatim>\<open>Object.prototype\<close> is as at start-up in the respects that
  matter (extensible, without prototype, holding the accessor \<^verbatim>\<open>__proto__\<close>, no \<^verbatim>\<open>isAdmin\<close>,
  nothing enumerable), and any ordinary target: an object whose prototype is
  \<^verbatim>\<open>Object.prototype\<close> and that has no own property \<^verbatim>\<open>__proto__\<close>.  Then \<^verbatim>\<open>unsafeMerge\<close> of the
  parsed payload \<^verbatim>\<open>{"__proto__": {"isAdmin": true}}\<close> returns (a nesting budget of two
  suffices), and afterwards \<^verbatim>\<open>Object.prototype.isAdmin\<close> is \<^verbatim>\<open>true\<close> and the admin check on a
  fresh empty object grants access.
\<close>

theorem C10_unsafeMerge_pollutes:
  assumes op: "deref h ObjectPrototype = Some op" "extensible op" "proto op = None"
      "map_of (props op) ''__proto__'' = Some ProtoAccessor"
      "map_of (props op) ''isAdmin'' = None" "own_enumerable_keys op = []"
    and tg: "deref h t = Some tob" "proto tob = Some ObjectPrototype"
      "map_of (props tob) ''__proto__'' = None"
  shows "\<exists>st'. unsafeMerge_json (Suc (Suc n)) h (Ref t) admin_payload = (Normal (Ref t), st')
           \<and> get (store st') (Ref ObjectPrototype) ''isAdmin'' = Inr (Bool True)
           \<and> fst (api_admin (store st')) = AdminGranted200"
proof -
  let ?inner = "json_object [(''isAdmin'', Bool True)]"
  let ?outer = "json_object [(''__proto__'', Ref (length h))]"
  let ?h1 = "h @ [?inner, ?outer]"
  let ?h2 = "set_own ?h1 ObjectPrototype ''isAdmin'' (Data (Bool True) True True)"
  from op tg have lt: "ObjectPrototype < length h" "t < length h" "h ! ObjectPrototype = op" "h ! t = tob"
    by (auto simp: deref_Some)
  have ne: "t \<noteq> ObjectPrototype" using op tg lt by auto
  have en: "\<forall>k \<in> set (own_property_keys op). \<not> enumerable_key op k"
    using op(6) by (simp add: own_enumerable_keys_def filter_empty_conv)
  have keys_outer: "for_in_keys ?h1 (Ref (Suc (length h))) = [''__proto__'']"
    using lt op en
    by (simp add: for_in_keys_def deref_def nth_append own_keys_single
        order_keys_proto filter_empty_conv)
  have keys_inner: "for_in_keys ?h1 (Ref (length h)) = [''isAdmin'']"
    using lt op en
    by (simp add: for_in_keys_def deref_def nth_append own_keys_single
        order_keys_isAdmin filter_empty_conv)
  have inner_step: "unsafeMerge (Suc n) \<lparr>store = ?h1, console = []\<rparr> (Ref ObjectPrototype) (Ref (length h))
      = (Normal (Ref ObjectPrototype), \<lparr>store = ?h2, console = []\<rparr>)"
    using lt op keys_inner
    by (simp add: has_property_def find_slot_def deref_def nth_append get_def
        get_chain_def typeof_def put_def ordinary_set_def create_own_def)
  have outer: "unsafeMerge_json (Suc (Suc n)) h (Ref t) admin_payload
      = (Normal (Ref t), \<lparr>store = ?h2, console = []\<rparr>)"
    using lt op tg ne keys_outer inner_step
    by (simp add: unsafeMerge_json_def parse_admin_payload has_property_def find_slot_def deref_def
        nth_append get_def get_chain_def typeof_def receiver_proto_def truthy_def)
  have g: "get ?h2 (Ref ObjectPrototype) ''isAdmin'' = Inr (Bool True)"
    using lt op
    by (simp add: get_def get_chain_def find_slot_def deref_def set_own_def nth_append
        map_of_set_prop)
  have a: "fst (api_admin ?h2) = AdminGranted200"
    using lt op
    by (simp add: api_admin_def alloc_def get_chain_def find_slot_def deref_def set_own_def
        nth_append map_of_set_prop empty_object_def truthy_def)
  from outer g a show ?thesis by simp
qed

theorem C10_unsafeMerge_pollutes_witness:
  "deref demo_heap ObjectPrototype = Some (demo_heap ! ObjectPrototype)
   \<and> extensible (demo_heap ! ObjectPrototype)
   \<and> proto (demo_heap ! ObjectPrototype) = None
   \<and> map_of (props (demo_heap ! ObjectPrototype)) ''__proto__'' = Some ProtoAccessor
   \<and> map_of (props (demo_heap ! ObjectPrototype)) ''isAdmin'' = None
   \<and> own_enumerable_keys (demo_heap ! ObjectPrototype) = []
   \<and> deref demo_heap 17 = Some (demo_heap ! 17)
   \<and> proto (demo_heap ! 17) = Some ObjectPrototype
   \<and> map_of (props (demo_heap ! 17)) ''__proto__'' = None
   \<and> fst (api_admin demo_heap) = AdminDenied403
   \<and> (\<exists>st'. unsafeMerge_json 2 demo_heap (Ref 17) admin_payload = (Normal (Ref 17), st')
          \<and> get (store st') (Ref ObjectPrototype) ''isAdmin'' = Inr (Bool True)
          \<and> fst (api_admin (store st')) = AdminGranted200)"
proof -
  have 1: "deref demo_heap ObjectPrototype = Some (demo_heap ! ObjectPrototype)" by code_simp
  have 2: "extensible (demo_heap ! ObjectPrototype)" by code_simp
  have 3: "proto (demo_heap ! ObjectPrototype) = None" by code_simp
  have 4: "map_of (props (demo_heap ! ObjectPrototype)) ''__proto__'' = Some ProtoAccessor"
    by code_simp
  have 5: "map_of (props (demo_heap ! ObjectPrototype)) ''isAdmin'' = None" by code_simp
  have 6: "own_enumerable_keys (demo_heap ! ObjectPrototype) = []" by code_simp
  have 7: "deref demo_heap 17 = Some (demo_heap ! 17)" by code_simp
  have 8: "proto (demo_heap ! 17) = Some ObjectPrototype" by code_simp
  have 9: "map_of (props (demo_heap ! 17)) ''__proto__'' = None" by code_simp
  have 10: "fst (api_admin demo_heap) = AdminDenied403" by code_simp
  from C10_unsafeMerge_pollutes[OF 1 2 3 4 5 6 7 8 9, of 0] 1 2 3 4 5 6 7 8 9 10
  show ?thesis by (simp add: numeral_2_eq_2)
qed


section \<open>Reasoning about runs of the safe merge\<close>

text \<open>What one turn of the loop of \<open>safeMerge\<close> can do.\<close>

lemma safeMerge_loop_cases:
  assumes run: "safeMerge_loop n st t s (k # ks) = (r, st')"
  obtains
    (denied) "k \<in> DANGEROUS_KEYS"
      "safeMerge_loop n (warn st (BlockedKey k)) t s ks = (r, st')"
  | (thrown) e where "k \<notin> DANGEROUS_KEYS" "r = Throw e" "st' = st"
  | (assign) sv h' where "k \<notin> DANGEROUS_KEYS" "get (store st) s k = Inr sv"
      "put (store st) t k sv = Inr h'"
      "safeMerge_loop n (st\<lparr>store := h'\<rparr>) t s ks = (r, st')"
      "\<not> (typeof (store st) sv = ''object'' \<and> sv \<noteq> Null \<and> \<not> isArray (store st) sv)"
  | (descend) h2 tv' sv' r1 st1 where "k \<notin> DANGEROUS_KEYS"
      "h2 = store st \<or> put (store st @ [null_object]) t k (Ref (length (store st))) = Inr h2"
      "get h2 t k = Inr tv'" "get h2 s k = Inr sv'"
      "safeMerge n (st\<lparr>store := h2\<rparr>) tv' sv' = (r1, st1)"
      "(\<exists>x. r1 = Normal x \<and> safeMerge_loop n st1 t s ks = (r, st'))
       \<or> ((\<forall>x. r1 \<noteq> Normal x) \<and> r = r1 \<and> st' = st1)"
      "\<exists>sv. get (store st) s k = Inr sv
            \<and> typeof (store st) sv = ''object'' \<and> sv \<noteq> Null \<and> \<not> isArray (store st) sv"
  | (stuck) h2 e where "k \<notin> DANGEROUS_KEYS"
      "h2 = store st \<or> put (store st @ [null_object]) t k (Ref (length (store st))) = Inr h2"
      "r = Throw e" "st' = st\<lparr>store := h2\<rparr>"
proof (cases "k \<in> DANGEROUS_KEYS")
  case True
  with run show ?thesis by (intro denied) simp_all
next
  case nd: False
  show ?thesis
  proof (cases "get (store st) s k")
    case (Inl e)
    with run nd show ?thesis by (intro thrown[of e]) simp_all
  next
    case sv: (Inr sv)
    show ?thesis
    proof (cases "typeof (store st) sv = ''object'' \<and> sv \<noteq> Null \<and> \<not> isArray (store st) sv")
      case False
      show ?thesis
      proof (cases "put (store st) t k sv")
        case (Inl e)
        with run nd sv False show ?thesis by (intro thrown[of e]) auto
      next
        case (Inr h')
        with run nd sv False show ?thesis by (intro assign[of sv h']) auto
      qed
    next
      case obj: True
      show ?thesis
      proof (cases "get (store st) t k")
        case (Inl e)
        with run nd sv obj show ?thesis by (intro thrown[of e]) simp_all
      next
        case tv: (Inr tv)
        define w where "w = (if \<not> truthy tv \<or> typeof (store st) tv \<noteq> ''object''
                           then put (store st @ [null_object]) t k (Ref (length (store st)))
                           else Inr (store st))"
        have run': "(case w of
                       Inl e \<Rightarrow> (Throw e, st)
                     | Inr h2 \<Rightarrow>
                         (case get h2 t k of
                            Inl e \<Rightarrow> (Throw e, st\<lparr>store := h2\<rparr>)
                          | Inr tv' \<Rightarrow>
                              (case get h2 s k of
                                 Inl e \<Rightarrow> (Throw e, st\<lparr>store := h2\<rparr>)
                               | Inr sv' \<Rightarrow>
                                   (case safeMerge n (st\<lparr>store := h2\<rparr>) tv' sv' of
                                      (Normal r, st') \<Rightarrow> safeMerge_loop n st' t s ks
                                    | (Throw e, st') \<Rightarrow> (Throw e, st')
                                    | (OutOfFuel, st') \<Rightarrow> (OutOfFuel, st'))))) = (r, st')"
        proof (cases "\<not> truthy tv \<or> typeof (store st) tv \<noteq> ''object''")
          case True
          with run nd sv obj tv show ?thesis unfolding w_def by (simp add: alloc_def)
        next
          case False
          with run nd sv obj tv show ?thesis unfolding w_def by (simp add: alloc_def)
        qed
        show ?thesis
        proof (cases w)
          case (Inl e)
          with run' show ?thesis using nd by (intro thrown[of e]) simp_all
        next
          case h2: (Inr h2)
          then have h2': "h2 = store st \<or>
              put (store st @ [null_object]) t k (Ref (length (store st))) = Inr h2"
            unfolding w_def by (auto split: if_splits)
          show ?thesis
          proof (cases "get h2 t k")
            case (Inl e)
            with run' h2 show ?thesis using nd h2' by (intro stuck[of h2 e]) simp_all
          next
            case tv': (Inr tv')
            show ?thesis
            proof (cases "get h2 s k")
              case (Inl e)
              with run' h2 tv' show ?thesis using nd h2' by (intro stuck[of h2 e]) simp_all
            next
              case sv': (Inr sv')
              obtain r1 st1 where sub: "safeMerge n (st\<lparr>store := h2\<rparr>) tv' sv' = (r1, st1)"
                by (cases "safeMerge n (st\<lparr>store := h2\<rparr>) tv' sv'")
              with run' h2 tv' sv' have
                "(\<exists>x. r1 = Normal x \<and> safeMerge_loop n st1 t s ks = (r, st'))
                 \<or> ((\<forall>x. r1 \<noteq> Normal x) \<and> r = r1 \<and> st' = st1)"
                by (cases r1) auto
              with nd h2' tv' sv' sub sv obj show ?thesis
                by (intro descend[of h2 tv' sv' r1 st1]) auto
            qed
          qed
        qed
      qed
    qed
  qed
qed

text \<open>
  A proof rule for \<open>safeMerge\<close>: a relation \<open>Post\<close> between the state before and the state
  after holds of every run, cut off or not, when it holds of each elementary step.  \<open>Pre\<close>
  is what is known of the state and of the target when a (nested) call starts.
\<close>

lemma safeMerge_rule:
  fixes Pre :: "state \<Rightarrow> val \<Rightarrow> val \<Rightarrow> bool" and Post :: "state \<Rightarrow> state \<Rightarrow> bool"
  assumes refl: "\<And>st. Post st st"
    and trans: "\<And>a b c. Post a b \<Longrightarrow> Post b c \<Longrightarrow> Post a c"
    and frame: "\<And>st t s st1. Pre st t s \<Longrightarrow> Post st st1 \<Longrightarrow> Pre st1 t s"
    and warned: "\<And>st t s k. Pre st t s \<Longrightarrow> k \<in> DANGEROUS_KEYS \<Longrightarrow>
        Post st (warn st (BlockedKey k))"
    and assigned: "\<And>st t s k sv h'. Pre st t s \<Longrightarrow> k \<notin> DANGEROUS_KEYS \<Longrightarrow>
        get (store st) s k = Inr sv \<Longrightarrow> put (store st) t k sv = Inr h' \<Longrightarrow>
        \<not> (typeof (store st) sv = ''object'' \<and> sv \<noteq> Null \<and> \<not> isArray (store st) sv) \<Longrightarrow>
        Post st (st\<lparr>store := h'\<rparr>)"
    and fresh: "\<And>st t s k h2. Pre st t s \<Longrightarrow> k \<notin> DANGEROUS_KEYS \<Longrightarrow>
        put (store st @ [null_object]) t k (Ref (length (store st))) = Inr h2 \<Longrightarrow>
        Post st (st\<lparr>store := h2\<rparr>)"
    and descended: "\<And>st t s k tv sv. Pre st t s \<Longrightarrow> k \<notin> DANGEROUS_KEYS \<Longrightarrow>
        get (store st) t k = Inr tv \<Longrightarrow> get (store st) s k = Inr sv \<Longrightarrow> Pre st tv sv"
  shows "Pre st t s \<Longrightarrow> safeMerge n st t s = (r, st') \<Longrightarrow> Post st st'"
proof (induction n arbitrary: st t s r st')
  case 0
  then show ?case by (simp add: refl)
next
  case (Suc n)
  have loop: "Pre st t s \<Longrightarrow> safeMerge_loop n st t s ks = (r, st') \<Longrightarrow> Post st st'"
    for st t s ks r st'
  proof (induction ks arbitrary: st r st')
    case Nil
    then show ?case by (simp add: refl)
  next
    case (Cons k ks)
    from Cons.prems(2) show ?case
    proof (cases rule: safeMerge_loop_cases)
      case denied
      from warned[OF Cons.prems(1) denied(1)] have p: "Post st (warn st (BlockedKey k))" .
      from Cons.IH[OF frame[OF Cons.prems(1) p] denied(2)] p show ?thesis
        by (blast intro: trans)
    next
      case (thrown e)
      then show ?thesis by (simp add: refl)
    next
      case (assign sv h')
      from assigned[OF Cons.prems(1) assign(1,2,3,5)] have p: "Post st (st\<lparr>store := h'\<rparr>)" .
      from Cons.IH[OF frame[OF Cons.prems(1) p] assign(4)] p show ?thesis
        by (blast intro: trans)
    next
      case (descend h2 tv' sv' r1 st1)
      from descend(2) have p: "Post st (st\<lparr>store := h2\<rparr>)"
      proof
        assume "h2 = store st" then show ?thesis by (simp add: refl)
      next
        assume "put (store st @ [null_object]) t k (Ref (length (store st))) = Inr h2"
        from fresh[OF Cons.prems(1) descend(1) this] show ?thesis .
      qed
      have pre2: "Pre (st\<lparr>store := h2\<rparr>) t s" by (rule frame[OF Cons.prems(1) p])
      have "Pre (st\<lparr>store := h2\<rparr>) tv' sv'"
        by (rule descended[OF pre2 descend(1)]) (simp_all add: descend(3,4))
      from Suc.IH[OF this descend(5)] have q: "Post (st\<lparr>store := h2\<rparr>) st1" .
      have pq: "Post st st1" by (rule trans[OF p q])
      from descend(6) show ?thesis
      proof
        assume "\<exists>x. r1 = Normal x \<and> safeMerge_loop n st1 t s ks = (r, st')"
        then have "safeMerge_loop n st1 t s ks = (r, st')" by blast
        from Cons.IH[OF frame[OF Cons.prems(1) pq] this] pq show ?thesis
          by (blast intro: trans)
      next
        assume "(\<forall>x. r1 \<noteq> Normal x) \<and> r = r1 \<and> st' = st1"
        with pq show ?thesis by simp
      qed
    next
      case (stuck h2 e)
      from stuck(2) have "Post st (st\<lparr>store := h2\<rparr>)"
      proof
        assume "h2 = store st" then show ?thesis by (simp add: refl)
      next
        assume "put (store st @ [null_object]) t k (Ref (length (store st))) = Inr h2"
        from fresh[OF Cons.prems(1) stuck(1) this] show ?thesis .
      qed
      with stuck show ?thesis by simp
    qed
  qed
  from Suc.prems show ?case
    by (auto simp: refl split: sum.splits dest: loop)
qed

lemma put_Inr_Done: "put h base k v = Inr h' \<Longrightarrow> h' = h \<or> ordinary_set h base k v = Done h'"
  by (auto simp: put_def split: set_result.splits)

lemma put_length: "put h base k v = Inr h' \<Longrightarrow> length h' = length h"
  by (drule put_Inr_Done) (auto dest!: ordinary_set_Done)

lemma put_other: "put h base k v = Inr h' \<Longrightarrow> base \<noteq> Ref a \<Longrightarrow> h' ! a = h ! a"
  by (drule put_Inr_Done) (auto dest!: ordinary_set_Done simp: set_own_def nth_list_update split: if_splits)

lemma put_frozen: "put h base k v = Inr h' \<Longrightarrow> frozen h a \<Longrightarrow> h' ! a = h ! a"
  by (cases "base = Ref a") (auto dest: put_other put_Inr_Done ordinary_set_frozen)

lemma frozen_cong: "frozen h a \<Longrightarrow> h' ! a = h ! a \<Longrightarrow> length h \<le> length h' \<Longrightarrow> frozen h' a"
  by (auto simp: frozen_def deref_def split: if_splits)

lemma safeMerge_frozen:
  assumes "frozen (store st) a" "safeMerge n st t s = (r, st')"
  shows "store st' ! a = store st ! a \<and> length (store st) \<le> length (store st')"
proof -
  have "frozen (store st) a \<longrightarrow>
          store st' ! a = store st ! a \<and> length (store st) \<le> length (store st')"
  proof (rule safeMerge_rule[where Pre = "\<lambda>st t s. frozen (store st) a"
        and Post = "\<lambda>st st'. frozen (store st) a \<longrightarrow>
          store st' ! a = store st ! a \<and> length (store st) \<le> length (store st')", OF _ _ _ _ _ _ _ assms])
    fix st t k h2
    assume f: "frozen (store st) a"
      and p: "put (store st @ [null_object]) t k (Ref (length (store st))) = Inr h2"
    from f have "a < length (store st)" by (simp add: frozen_D)
    with f have "frozen (store st @ [null_object]) a"
      by (intro frozen_cong[OF f]) (simp_all add: nth_append)
    from put_frozen[OF p this] put_length[OF p] \<open>a < length (store st)\<close>
    show "frozen (store st) a \<longrightarrow> store (st\<lparr>store := h2\<rparr>) ! a = store st ! a
           \<and> length (store st) \<le> length (store (st\<lparr>store := h2\<rparr>))"
      by (simp add: nth_append)
  qed (auto simp: warn_def dest: put_frozen put_length intro: frozen_cong)
  with assms show ?thesis by simp
qed

lemma put_slot_other:
  "put h base k v = Inr h' \<Longrightarrow> k' \<noteq> k \<Longrightarrow> map_of (props (h' ! a)) k' = map_of (props (h ! a)) k'"
  by (drule put_Inr_Done)
     (auto dest!: ordinary_set_Done simp: set_own_def nth_list_update map_of_set_prop split: if_splits)




lemma denied_untouched_refl: "denied_untouched h h"
  by (simp add: denied_untouched_def)

lemma denied_untouched_trans:
  "denied_untouched h1 h2 \<Longrightarrow> denied_untouched h2 h3 \<Longrightarrow> denied_untouched h1 h3"
  unfolding denied_untouched_def
  by (metis le_trans less_le_trans not_le)

lemma denied_untouched_put:
  "put h t k v = Inr h' \<Longrightarrow> k \<notin> DANGEROUS_KEYS \<Longrightarrow> denied_untouched h h'"
  unfolding denied_untouched_def
  by (auto dest: put_length put_slot_other)

lemma denied_untouched_fresh:
  assumes "put (h @ [null_object]) t k v = Inr h'" "k \<notin> DANGEROUS_KEYS"
  shows "denied_untouched h h'"
proof -
  have "denied_untouched h (h @ [null_object])"
    by (auto simp: denied_untouched_def nth_append null_object_def)
  from denied_untouched_trans[OF this denied_untouched_put[OF assms]] show ?thesis .
qed

lemma safeMerge_denied_untouched:
  assumes "safeMerge n st t s = (r, st')"
  shows "denied_untouched (store st) (store st')"
  by (rule safeMerge_rule[where Pre = "\<lambda>st t s. True"
      and Post = "\<lambda>st st'. denied_untouched (store st) (store st')", OF _ _ _ _ _ _ _ _ assms])
    (auto simp: warn_def intro: denied_untouched_refl denied_untouched_put denied_untouched_fresh
       elim: denied_untouched_trans)

section \<open>Stores that hide the shared ancestor\<close>

lemma hidden_slot:
  assumes "ancestor_hidden h" "a < length h" "map_of (props (h ! a)) k = Some s"
    "k \<notin> DANGEROUS_KEYS"
  shows "\<exists>v e w. s = Data v e w \<and> v \<noteq> Ref ObjectPrototype"
proof -
  from assms(3) have "(k, s) \<in> set (props (h ! a))" by (rule map_of_SomeD)
  with assms(1,2,4) show ?thesis
    by (cases s) (fastforce simp: ancestor_hidden_def list_all_iff)+
qed

lemma string_own_not_ref: "string_own s k = Some v \<Longrightarrow> v \<noteq> Ref a"
  by (auto simp: string_own_def split: if_splits option.splits)

lemma get_chain_hidden:
  assumes "ancestor_hidden h" "k \<notin> DANGEROUS_KEYS"
  shows "get_chain h base a k \<noteq> Ref ObjectPrototype"
proof (cases "find_slot h a k")
  case None
  then show ?thesis by (simp add: get_chain_def)
next
  case (Some hs)
  obtain holder s where hs: "hs = (holder, s)" by (cases hs)
  from find_slot_Some_deref Some hs
  have "holder < length h" "map_of (props (h ! holder)) k = Some s" by auto
  from hidden_slot[OF assms(1) this assms(2)] Some hs show ?thesis
    by (auto simp: get_chain_def)
qed

lemma get_hidden:
  "ancestor_hidden h \<Longrightarrow> k \<notin> DANGEROUS_KEYS \<Longrightarrow> get h base k = Inr v \<Longrightarrow> v \<noteq> Ref ObjectPrototype"
  by (cases base)
     (auto simp: get_def get_chain_hidden split: option.splits dest: string_own_not_ref)

lemma list_all_set_prop:
  "list_all P ps \<Longrightarrow> P (k, s) \<Longrightarrow> list_all P (set_prop k s ps)"
  by (induction ps) auto

lemma list_all_update: "list_all P xs \<Longrightarrow> P x \<Longrightarrow> list_all P (xs[a := x])"
  by (induction xs arbitrary: a) (auto split: nat.splits)

lemma hidden_put:
  assumes "ancestor_hidden h" "put h base k v = Inr h'" "k \<notin> DANGEROUS_KEYS"
    "v \<noteq> Ref ObjectPrototype"
  shows "ancestor_hidden h'"
proof -
  from put_Inr_Done[OF assms(2)] have "h' = h \<or> ordinary_set h base k v = Done h'" .
  then show ?thesis
  proof
    assume "ordinary_set h base k v = Done h'"
    from ordinary_set_Done[OF this]
    have "h' = h \<or> (\<exists>a e. a < length h \<and> h' = set_own h a k (Data v e True))
          \<or> (\<exists>a p. a < length h \<and> h' = h[a := (h ! a)\<lparr>proto := p\<rparr>])" by blast
    then show ?thesis
    proof (elim disjE exE conjE)
      fix a e
      assume a: "a < length h" and h': "h' = set_own h a k (Data v e True)"
      from assms(1) a have "list_all (\<lambda>(k, s). k \<in> DANGEROUS_KEYS \<or>
          (case s of Data v e w \<Rightarrow> v \<noteq> Ref ObjectPrototype | ProtoAccessor \<Rightarrow> False))
          (props (h ! a))"
        by (simp add: ancestor_hidden_def list_all_length)
      then have "list_all (\<lambda>(k, s). k \<in> DANGEROUS_KEYS \<or>
          (case s of Data v e w \<Rightarrow> v \<noteq> Ref ObjectPrototype | ProtoAccessor \<Rightarrow> False))
          (set_prop k (Data v e True) (props (h ! a)))"
        using assms(4) by (intro list_all_set_prop) simp_all
      with assms(1) show ?thesis unfolding h' ancestor_hidden_def set_own_def
        by (intro list_all_update) simp_all
    next
      fix a p
      assume a: "a < length h" and h': "h' = h[a := (h ! a)\<lparr>proto := p\<rparr>]"
      from assms(1) a have "list_all (\<lambda>(k, s). k \<in> DANGEROUS_KEYS \<or>
          (case s of Data v e w \<Rightarrow> v \<noteq> Ref ObjectPrototype | ProtoAccessor \<Rightarrow> False))
          (props (h ! a))"
        by (simp add: ancestor_hidden_def list_all_length)
      with assms(1) show ?thesis unfolding h' ancestor_hidden_def
        by (intro list_all_update) simp_all
    qed (use assms(1) in simp)
  qed (use assms(1) in simp)
qed

lemma hidden_fresh: "ancestor_hidden h \<Longrightarrow> ancestor_hidden (h @ [null_object])"
  by (simp add: ancestor_hidden_def null_object_def)

lemma safeMerge_hidden:
  assumes pre: "ancestor_hidden (store st)" "ObjectPrototype < length (store st)"
      "t \<noteq> Ref ObjectPrototype"
    and run: "safeMerge n st t s = (r, st')"
  shows "store st' ! ObjectPrototype = store st ! ObjectPrototype
         \<and> ancestor_hidden (store st') \<and> length (store st) \<le> length (store st')"
proof -
  let ?inv = "\<lambda>st. ancestor_hidden (store st) \<and> ObjectPrototype < length (store st)"
  let ?Pre = "\<lambda>st t (s::val). ?inv st \<and> t \<noteq> Ref ObjectPrototype"
  let ?Post = "\<lambda>st st'. ?inv st \<longrightarrow>
       store st' ! ObjectPrototype = store st ! ObjectPrototype
       \<and> ancestor_hidden (store st') \<and> length (store st) \<le> length (store st')"
  have "?Post st st'"
  proof (rule safeMerge_rule[where Pre = ?Pre and Post = ?Post, OF _ _ _ _ _ _ _ _ run])
    show "?Pre st t s" using pre by simp
  next
    fix st t s k sv h'
    assume p: "?Pre st t s" and k: "k \<notin> DANGEROUS_KEYS"
      and g: "get (store st) s k = Inr sv" and w: "put (store st) t k sv = Inr h'"
    from get_hidden[OF _ k g] p have "sv \<noteq> Ref ObjectPrototype" by simp
    from hidden_put[OF _ w k this] put_other[OF w, of ObjectPrototype] put_length[OF w] p
    show "?Post st (st\<lparr>store := h'\<rparr>)" by simp
  next
    fix st t and s :: val and k h2
    assume p: "?Pre st t s" and k: "k \<notin> DANGEROUS_KEYS"
      and w: "put (store st @ [null_object]) t k (Ref (length (store st))) = Inr h2"
    from p have "Ref (length (store st)) \<noteq> Ref ObjectPrototype" by auto
    from hidden_put[OF hidden_fresh w k this] put_other[OF w, of ObjectPrototype] put_length[OF w] p
    show "?Post st (st\<lparr>store := h2\<rparr>)" by (simp add: nth_append)
  next
    fix st t and s sv :: val and k tv
    assume p: "?Pre st t s" and k: "k \<notin> DANGEROUS_KEYS" and g: "get (store st) t k = Inr tv"
    from get_hidden[OF _ k g] p show "?Pre st tv sv" by simp
  qed (auto simp: warn_def)
  with pre show ?thesis by simp
qed

lemma get_ancestor_own:
  assumes "ObjectPrototype < length h" "proto (h ! ObjectPrototype) = None"
  shows "get h (Ref ObjectPrototype) k =
     Inr (case map_of (props (h ! ObjectPrototype)) k of
            None \<Rightarrow> Undefined
          | Some (Data v e w) \<Rightarrow> v
          | Some ProtoAccessor \<Rightarrow> Null)"
proof -
  from assms(1) obtain m where m: "length h = Suc m" by (cases "length h") auto
  with assms show ?thesis
    by (auto simp: get_def get_chain_def find_slot_def deref_def receiver_proto_def
        split: option.splits slot.splits)
qed

lemma verify_ambient_clean_cong:
  assumes "ObjectPrototype < length h" "proto (h ! ObjectPrototype) = None"
    "h' ! ObjectPrototype = h ! ObjectPrototype" "length h \<le> length h'"
  shows "verify_ambient_clean h' = verify_ambient_clean h"
proof -
  from assms have "ObjectPrototype < length h'" "proto (h' ! ObjectPrototype) = None" by auto
  from get_ancestor_own[OF this] get_ancestor_own[OF assms(1,2)] assms(3)
  show ?thesis by (simp add: verify_ambient_clean_def)
qed

section \<open>C1: the safe merge leaves the shared ancestor alone\<close>

text \<open>
  C1: after any run of \<^verbatim>\<open>safeMerge\<close> \<^emph>\<open>whatever its target,
  its source and its outcome\<close> (returned, thrown, or cut off at any depth) the object
  \<^verbatim>\<open>Object.prototype\<close> is what it was before, and the check of the ambient guard still
  succeeds if it succeeded before.  This holds under either of two conditions on the state
  in which the merge starts: the guard is installed (\<^verbatim>\<open>Object.prototype\<close> is frozen, as in
  the patched server); or, without the freeze, the target is not \<^verbatim>\<open>Object.prototype\<close> itself
  and no property with a name outside the deny-list refers to it, which is true of the
  start-up store and of every parsed JSON document.
\<close>

theorem C1_safeMerge_keeps_ancestor:
  assumes "frozen (store st) ObjectPrototype
           \<or> (ancestor_hidden (store st) \<and> ObjectPrototype < length (store st)
               \<and> target \<noteq> Ref ObjectPrototype)"
    and "safeMerge n st target source = (r, st')"
  shows "store st' ! ObjectPrototype = store st ! ObjectPrototype
    \<and> (proto (store st ! ObjectPrototype) = None \<and> verify_ambient_clean (store st)
         \<longrightarrow> verify_ambient_clean (store st'))"
proof -
  have "store st' ! ObjectPrototype = store st ! ObjectPrototype
        \<and> length (store st) \<le> length (store st') \<and> ObjectPrototype < length (store st)"
    using assms(1)
  proof
    assume f: "frozen (store st) ObjectPrototype"
    from safeMerge_frozen[OF f assms(2)] frozen_D[OF f] show ?thesis by simp
  next
    assume "ancestor_hidden (store st) \<and> ObjectPrototype < length (store st)
               \<and> target \<noteq> Ref ObjectPrototype"
    then have h: "ancestor_hidden (store st)" "ObjectPrototype < length (store st)"
      "target \<noteq> Ref ObjectPrototype" by simp_all
    from safeMerge_hidden[OF h assms(2)] h(2) show ?thesis by simp
  qed
  then show ?thesis using verify_ambient_clean_cong[of "store st" "store st'"] by auto
qed

theorem C1_safeMerge_keeps_ancestor_witness:
  "frozen (store top_attack_request) ObjectPrototype
   \<and> proto (store top_attack_request ! ObjectPrototype) = None
   \<and> verify_ambient_clean (store top_attack_request)
   \<and> fst (safeMerge 5 top_attack_request (Ref 18) (fst (parse top_attack_updates fixed_heap)))
       = Normal (Ref 18)
   \<and> store (snd (safeMerge 5 top_attack_request (Ref 18)
                    (fst (parse top_attack_updates fixed_heap)))) ! ObjectPrototype
       = store top_attack_request ! ObjectPrototype
   \<and> verify_ambient_clean
        (store (snd (safeMerge 5 top_attack_request (Ref 18)
                       (fst (parse top_attack_updates fixed_heap)))))
   \<and> \<not> frozen (store demo_request) ObjectPrototype
   \<and> ancestor_hidden (store demo_request)
   \<and> verify_ambient_clean (store demo_request)
   \<and> fst (safeMerge 5 demo_request (Ref 17) (fst (parse admin_payload demo_heap)))
       = Normal (Ref 17)
   \<and> verify_ambient_clean
        (store (snd (safeMerge 5 demo_request (Ref 17) (fst (parse admin_payload demo_heap)))))"
proof -
  have 1: "frozen (store top_attack_request) ObjectPrototype" by code_simp
  have 2: "proto (store top_attack_request ! ObjectPrototype) = None" by code_simp
  have 3: "verify_ambient_clean (store top_attack_request)" by code_simp
  have 4: "fst (safeMerge 5 top_attack_request (Ref 18) (fst (parse top_attack_updates fixed_heap)))
       = Normal (Ref 18)" by code_simp
  have 5: "\<not> frozen (store demo_request) ObjectPrototype" by code_simp
  have 6: "ancestor_hidden (store demo_request)" by code_simp
  have 7: "ObjectPrototype < length (store demo_request)" by code_simp
  have 8: "proto (store demo_request ! ObjectPrototype) = None" by code_simp
  have 9: "verify_ambient_clean (store demo_request)" by code_simp
  have 10: "fst (safeMerge 5 demo_request (Ref 17) (fst (parse admin_payload demo_heap)))
       = Normal (Ref 17)" by code_simp
  have 11: "Ref 17 \<noteq> Ref ObjectPrototype" by (simp add: ObjectPrototype_def)
  note a = C1_safeMerge_keeps_ancestor[OF disjI1[OF 1] surjective_pairing]
  note b = C1_safeMerge_keeps_ancestor[OF disjI2[OF conjI[OF 6 conjI[OF 7 11]]] surjective_pairing]
  from a[of 5 "Ref 18" "fst (parse top_attack_updates fixed_heap)"]
    b[of 5 "fst (parse admin_payload demo_heap)"] 1 2 3 4 5 6 8 9 10
  show ?thesis by simp
qed

text \<open>
  Remark.  The result is about the object \<^verbatim>\<open>Object.prototype\<close> itself.  The freeze is
  shallow, and by making the inherited methods non-writable it keeps an ordinary target from
  shadowing them: with the guard installed, the merge of \<^verbatim>\<open>{"toString": {"polluted": true}}\<close>
  into an ordinary empty object does not give the target an own \<^verbatim>\<open>toString\<close>; it enters the
  shared function \<^verbatim>\<open>Object.prototype.toString\<close> and writes \<^verbatim>\<open>polluted\<close> there.  Without the
  freeze the target gets its own fresh \<^verbatim>\<open>toString\<close> and the shared function is not touched.
  In both runs \<^verbatim>\<open>Object.prototype\<close> itself is unchanged.
\<close>

lemma frozen_guard_is_shallow:
  "fst shadow_run_frozen = Normal (Ref 17)
   \<and> get (store (snd shadow_run_frozen)) (Ref 17) ''toString'' = Inr (Ref 14)
   \<and> get_path (store (snd shadow_run_frozen)) (Ref ObjectPrototype) [''toString'', ''polluted'']
       = Inr (Bool True)
   \<and> store (snd shadow_run_frozen) ! ObjectPrototype = install initial_heap ! ObjectPrototype
   \<and> fst shadow_run_unfrozen = Normal (Ref 17)
   \<and> get (store (snd shadow_run_unfrozen)) (Ref 17) ''toString'' = Inr (Ref 20)
   \<and> get_path (store (snd shadow_run_unfrozen)) (Ref ObjectPrototype) [''toString'', ''polluted'']
       = Inr Undefined
   \<and> store (snd shadow_run_unfrozen) ! ObjectPrototype = initial_heap ! ObjectPrototype"
  by code_simp

section \<open>Own properties and the nested step of the loop\<close>

lemma find_slot_own:
  "a < length h \<Longrightarrow> map_of (props (h ! a)) k = Some s \<Longrightarrow> find_slot h a k = Some (a, s)"
  by (cases "length h") (auto simp: find_slot_def deref_def)

lemma find_slot_null:
  "a < length h \<Longrightarrow> proto (h ! a) = None \<Longrightarrow> map_of (props (h ! a)) k = None \<Longrightarrow>
   find_slot h a k = None"
  by (cases "length h") (auto simp: find_slot_def deref_def)

lemma get_own:
  "a < length h \<Longrightarrow> map_of (props (h ! a)) k = Some (Data v e w) \<Longrightarrow> get h (Ref a) k = Inr v"
  by (simp add: get_def get_chain_def find_slot_own)

lemma get_absent:
  "a < length h \<Longrightarrow> proto (h ! a) = None \<Longrightarrow> map_of (props (h ! a)) k = None \<Longrightarrow>
   get h (Ref a) k = Inr Undefined"
  by (simp add: get_def get_chain_def find_slot_null)

lemma put_create:
  "a < length h \<Longrightarrow> proto (h ! a) = None \<Longrightarrow> map_of (props (h ! a)) k = None \<Longrightarrow>
   extensible (h ! a) \<Longrightarrow> put h (Ref a) k v = Inr (set_own h a k (Data v True True))"
  by (simp add: put_def ordinary_set_def find_slot_null create_own_def deref_def)

lemma put_update:
  "a < length h \<Longrightarrow> map_of (props (h ! a)) k = Some (Data v0 e True) \<Longrightarrow>
   put h (Ref a) k v = Inr (set_own h a k (Data v e True))"
  by (simp add: put_def ordinary_set_def find_slot_own)

lemma map_of_set_own:
  "a < length h \<Longrightarrow> map_of (props (set_own h a k s ! a)) k = Some s"
  by (simp add: set_own_def map_of_set_prop)

lemma typeof_Ref:
  "a < length h \<Longrightarrow> typeof h (Ref a) = (if kind (h ! a) = Function then ''function'' else ''object'')"
  by (simp add: typeof_def deref_def)

lemma isArray_Ref: "a < length h \<Longrightarrow> isArray h (Ref a) = (kind (h ! a) = Array)"
  by (simp add: isArray_def deref_def)

text \<open>The common part: the source holds, under \<open>k\<close>, an own reference to a plain object.\<close>

lemma loop_descend_fresh:
  assumes k: "k \<notin> DANGEROUS_KEYS"
    and src: "sa < length (store st)"
      "map_of (props (store st ! sa)) k = Some (Data (Ref v) es ws)"
      "v < length (store st)" "kind (store st ! v) = Plain"
    and tgt: "ta < length (store st)" "get (store st) (Ref ta) k = Inr tv"
      "\<not> truthy tv \<or> typeof (store st) tv \<noteq> ''object''"
      "put (store st @ [null_object]) (Ref ta) k (Ref (length (store st))) = Inr h2"
      "get h2 (Ref ta) k = Inr tv'" "get h2 (Ref sa) k = Inr sv'"
  shows "safeMerge_loop n st (Ref ta) (Ref sa) (k # keys)
         = and_then (safeMerge n (st\<lparr>store := h2\<rparr>) tv' sv')
             (\<lambda>st1. safeMerge_loop n st1 (Ref ta) (Ref sa) keys)"
proof -
  have g: "get (store st) (Ref sa) k = Inr (Ref v)" using src by (simp add: get_own)
  have ty: "typeof (store st) (Ref v) = ''object''" "\<not> isArray (store st) (Ref v)"
    using src by (simp_all add: typeof_Ref isArray_Ref)
  from tgt(3) show ?thesis
  proof
    assume "\<not> truthy tv"
    with k g ty tgt show ?thesis
      by (simp add: alloc_def and_then_def split: prod.splits outcome.splits)
  next
    assume "typeof (store st) tv \<noteq> ''object''"
    with k g ty tgt show ?thesis
      by (simp add: alloc_def and_then_def split: prod.splits outcome.splits)
  qed
qed


lemma fresh_child_facts:
  assumes "ta < length h"
  shows "length (fresh_child h ta k e) = Suc (length h)"
    and "fresh_child h ta k e ! length h = null_object"
    and "a < length h \<Longrightarrow> a \<noteq> ta \<Longrightarrow> fresh_child h ta k e ! a = h ! a"
    and "map_of (props (fresh_child h ta k e ! ta)) k = Some (Data (Ref (length h)) e True)"
    and "get (fresh_child h ta k e) (Ref ta) k = Inr (Ref (length h))"
proof -
  show 1: "length (fresh_child h ta k e) = Suc (length h)" by (simp add: fresh_child_def)
  from assms show "fresh_child h ta k e ! length h = null_object"
    by (simp add: fresh_child_def set_own_def nth_append)
  show "a < length h \<Longrightarrow> a \<noteq> ta \<Longrightarrow> fresh_child h ta k e ! a = h ! a"
    by (simp add: fresh_child_def set_own_def nth_append)
  from assms show 4: "map_of (props (fresh_child h ta k e ! ta)) k = Some (Data (Ref (length h)) e True)"
    by (simp add: fresh_child_def set_own_def nth_append map_of_set_prop)
  from assms 1 have "ta < length (fresh_child h ta k e)" by simp
  from get_own[OF this 4] show "get (fresh_child h ta k e) (Ref ta) k = Inr (Ref (length h))" .
qed

section \<open>C8: what the safe merge does with containers\<close>

text \<open>
  Claim C8 says that every container value of the source, sequence or mapping, is merged
  into a fresh ancestor-free container at \<^verbatim>\<open>target[k]\<close>.  The code excludes arrays from the
  merge (\<^verbatim>\<open>!Array.isArray(source[key])\<close>): an array of the source is assigned as it is.  After
  merging \<^verbatim>\<open>{"tags": [1, 2]}\<close> into alice's record, \<^verbatim>\<open>tags\<close> of the record is the very array
  object of the request body, whose prototype is \<^verbatim>\<open>Array.prototype\<close>, and the merge has
  created no object at all.
\<close>

theorem C8_array_by_reference_counterexample:
  "fst tags_run = Normal (Ref 18)
   \<and> get (snd (parse tags_body fixed_heap)) (fst (parse tags_body fixed_heap)) ''tags''
       = Inr (Ref 20)
   \<and> get (store (snd tags_run)) (Ref 18) ''tags'' = Inr (Ref 20)
   \<and> proto (store (snd tags_run) ! 20) = Some ArrayPrototype
   \<and> length (store (snd tags_run)) = length (snd (parse tags_body fixed_heap))"
  by code_simp

text \<open>
  C8, amended.  Let \<open>k\<close> be a key outside the deny-list under which the source holds an own
  reference to an object \<open>v\<close>, and let the target be an extensible object without prototype
  (as every target of the patched server is).
  \<^item> If \<open>v\<close> is a plain object and the target has no property \<open>k\<close>, or holds there a writable
    value that is falsy or not of type object, \<^verbatim>\<open>safeMerge\<close> stores a fresh object without
    prototype and without properties under \<open>k\<close> and merges \<open>v\<close> into it; then it goes on
    with the other keys.
  \<^item> If \<open>v\<close> is a plain object and the target holds an object or an array under \<open>k\<close>, that
    object is kept and \<open>v\<close> is merged into it, whatever its shape.
  \<^item> If \<open>v\<close> is an array, nothing is created and nothing is merged: the property \<open>k\<close> of
    the target is set to refer to \<open>v\<close> itself.
  No depth is counted and no path is kept.
\<close>

theorem C8_container_handling:
  assumes k: "k \<notin> DANGEROUS_KEYS"
    and src: "sa < length (store st)"
      "map_of (props (store st ! sa)) k = Some (Data (Ref v) es ws)" "v < length (store st)"
    and tgt: "ta < length (store st)" "proto (store st ! ta) = None" "extensible (store st ! ta)"
  shows
    "(\<forall>e. kind (store st ! v) = Plain
          \<and> (map_of (props (store st ! ta)) k = None \<and> e
              \<or> (\<exists>tv. map_of (props (store st ! ta)) k = Some (Data tv e True)
                       \<and> (\<not> truthy tv \<or> typeof (store st) tv \<noteq> ''object''))) \<longrightarrow>
        fresh_child (store st) ta k e ! length (store st) = null_object
        \<and> get (fresh_child (store st) ta k e) (Ref ta) k = Inr (Ref (length (store st)))
        \<and> safeMerge_loop n st (Ref ta) (Ref sa) (k # keys)
            = and_then (safeMerge n (st\<lparr>store := fresh_child (store st) ta k e\<rparr>)
                          (Ref (length (store st))) (Ref v))
                (\<lambda>st1. safeMerge_loop n st1 (Ref ta) (Ref sa) keys))
     \<and> (\<forall>x e w. kind (store st ! v) = Plain
          \<and> map_of (props (store st ! ta)) k = Some (Data (Ref x) e w)
          \<and> x < length (store st) \<and> kind (store st ! x) \<noteq> Function \<longrightarrow>
        safeMerge_loop n st (Ref ta) (Ref sa) (k # keys)
          = and_then (safeMerge n st (Ref x) (Ref v))
              (\<lambda>st1. safeMerge_loop n st1 (Ref ta) (Ref sa) keys))
     \<and> (kind (store st ! v) = Array \<and> map_of (props (store st ! ta)) k = None \<longrightarrow>
        safeMerge_loop n st (Ref ta) (Ref sa) (k # keys)
          = safeMerge_loop n (st\<lparr>store := set_own (store st) ta k (Data (Ref v) True True)\<rparr>)
              (Ref ta) (Ref sa) keys)"
proof (intro conjI allI impI)
  let ?h = "store st"
  let ?f = "length ?h"
  fix e
  assume a: "kind (?h ! v) = Plain
          \<and> (map_of (props (?h ! ta)) k = None \<and> e
              \<or> (\<exists>tv. map_of (props (?h ! ta)) k = Some (Data tv e True)
                       \<and> (\<not> truthy tv \<or> typeof ?h tv \<noteq> ''object'')))"
  let ?h2 = "fresh_child ?h ta k e"
  note fc = fresh_child_facts[OF tgt(1)]
  from a src have ne: "sa \<noteq> ta"
    by (auto simp: truthy_def typeof_Ref)
  obtain tv where tv: "get ?h (Ref ta) k = Inr tv" "\<not> truthy tv \<or> typeof ?h tv \<noteq> ''object''"
    using a tgt by (auto simp: get_absent get_own truthy_def)
  have ta': "ta < length (?h @ [null_object])" "proto ((?h @ [null_object]) ! ta) = None"
    "extensible ((?h @ [null_object]) ! ta)"
    "map_of (props ((?h @ [null_object]) ! ta)) k = map_of (props (?h ! ta)) k"
    using tgt by (simp_all add: nth_append)
  have p: "put (?h @ [null_object]) (Ref ta) k (Ref ?f) = Inr ?h2"
    using a put_create[OF ta'(1,2) _ ta'(3), of k "Ref ?f"]
      put_update[OF ta'(1), of k _ e "Ref ?f"] ta'(4)
    by (auto simp: fresh_child_def)
  have gs: "get ?h2 (Ref sa) k = Inr (Ref v)"
    using src ne fc(1,3) by (intro get_own[where e = es and w = ws]) simp_all
  from a have pl: "kind (?h ! v) = Plain" by simp
  show "?h2 ! ?f = null_object" by (rule fc(2))
  show "get ?h2 (Ref ta) k = Inr (Ref ?f)" by (rule fc(5))
  show "safeMerge_loop n st (Ref ta) (Ref sa) (k # keys)
            = and_then (safeMerge n (st\<lparr>store := ?h2\<rparr>) (Ref ?f) (Ref v))
                (\<lambda>st1. safeMerge_loop n st1 (Ref ta) (Ref sa) keys)"
    by (rule loop_descend_fresh[OF k src pl tgt(1) tv p fc(5) gs])
next
  let ?h = "store st"
  fix x e w
  assume a: "kind (?h ! v) = Plain \<and> map_of (props (?h ! ta)) k = Some (Data (Ref x) e w)
          \<and> x < length ?h \<and> kind (?h ! x) \<noteq> Function"
  have g: "get ?h (Ref sa) k = Inr (Ref v)" using src by (simp add: get_own)
  have gt: "get ?h (Ref ta) k = Inr (Ref x)" using a tgt by (simp add: get_own)
  from a src g gt k show "safeMerge_loop n st (Ref ta) (Ref sa) (k # keys)
          = and_then (safeMerge n st (Ref x) (Ref v))
              (\<lambda>st1. safeMerge_loop n st1 (Ref ta) (Ref sa) keys)"
    by (simp add: typeof_Ref isArray_Ref truthy_def and_then_def
        split: prod.splits outcome.splits)
next
  let ?h = "store st"
  assume a: "kind (?h ! v) = Array \<and> map_of (props (?h ! ta)) k = None"
  have g: "get ?h (Ref sa) k = Inr (Ref v)" using src by (simp add: get_own)
  from a have p: "put ?h (Ref ta) k (Ref v) = Inr (set_own ?h ta k (Data (Ref v) True True))"
    using tgt by (simp add: put_create)
  from a src g p k show "safeMerge_loop n st (Ref ta) (Ref sa) (k # keys)
          = safeMerge_loop n (st\<lparr>store := set_own ?h ta k (Data (Ref v) True True)\<rparr>)
              (Ref ta) (Ref sa) keys"
    by (simp add: typeof_Ref isArray_Ref)
qed

theorem C8_container_handling_witness:
  "''bio'' \<notin> DANGEROUS_KEYS
   \<and> fst (parse bio_body fixed_heap) = Ref 21
   \<and> map_of (props (store bio_request ! 21)) ''bio'' = Some (Data (Ref 20) True True)
   \<and> kind (store bio_request ! 20) = Plain
   \<and> proto (store bio_request ! 18) = None \<and> extensible (store bio_request ! 18)
   \<and> map_of (props (store bio_request ! 18)) ''bio'' = None
   \<and> length (store bio_request) = 22
   \<and> fresh_child (store bio_request) 18 ''bio'' True ! 22 = null_object
   \<and> get (fresh_child (store bio_request) 18 ''bio'' True) (Ref 18) ''bio'' = Inr (Ref 22)
   \<and> safeMerge_loop 3 bio_request (Ref 18) (Ref 21) [''bio'']
       = and_then (safeMerge 3 (bio_request\<lparr>store := fresh_child (store bio_request) 18 ''bio'' True\<rparr>)
                     (Ref 22) (Ref 20))
           (\<lambda>st1. safeMerge_loop 3 st1 (Ref 18) (Ref 21) [])
   \<and> get_path (store (snd (safeMerge_loop 3 bio_request (Ref 18) (Ref 21) [''bio''])))
        (Ref 18) [''bio'', ''y''] = Inr (Num 2)"
proof -
  have 1: "''bio'' \<notin> DANGEROUS_KEYS" by (simp add: DANGEROUS_KEYS_def)
  have len: "length (store bio_request) = 22" by code_simp
  have 2: "21 < length (store bio_request)" "20 < length (store bio_request)"
    "18 < length (store bio_request)" by (simp_all add: len)
  have 3: "map_of (props (store bio_request ! 21)) ''bio'' = Some (Data (Ref 20) True True)"
    by code_simp
  have 4: "kind (store bio_request ! 20) = Plain" by code_simp
  have 5: "proto (store bio_request ! 18) = None" by code_simp
  have 6: "extensible (store bio_request ! 18)" by code_simp
  have 7: "map_of (props (store bio_request ! 18)) ''bio'' = None" by code_simp
  have 8: "fst (parse bio_body fixed_heap) = Ref 21" by code_simp
  have 9: "get_path (store (snd (safeMerge_loop 3 bio_request (Ref 18) (Ref 21) [''bio''])))
        (Ref 18) [''bio'', ''y''] = Inr (Num 2)" by code_simp
  from C8_container_handling[OF 1 2(1) 3 2(2,3) 5 6, of 3 "[]"] 4 7
  have "fresh_child (store bio_request) 18 ''bio'' True ! length (store bio_request) = null_object
        \<and> get (fresh_child (store bio_request) 18 ''bio'' True) (Ref 18) ''bio''
            = Inr (Ref (length (store bio_request)))
        \<and> safeMerge_loop 3 bio_request (Ref 18) (Ref 21) [''bio'']
            = and_then (safeMerge 3 (bio_request\<lparr>store := fresh_child (store bio_request) 18 ''bio'' True\<rparr>)
                          (Ref (length (store bio_request))) (Ref 20))
                (\<lambda>st1. safeMerge_loop 3 st1 (Ref 18) (Ref 21) [])"
    by blast
  with 1 3 4 5 6 7 8 9 len show ?thesis
    by (simp del: safeMerge.simps safeMerge_loop.simps get_path.simps)
qed


section \<open>Sources nested to any depth\<close>

lemma is_nest_Suc:
  "is_nest h sa (Suc d) \<longleftrightarrow>
     sa < length h \<and> (\<exists>sb w. props (h ! sa) = [(''a'', Data (Ref sb) True w)]
        \<and> sb < length h \<and> kind (h ! sb) = Plain \<and> is_nest h sb d)"
  by (cases "props (h ! sa)") (auto split: slot.splits val.splits)

declare is_nest.simps(2) [simp del]

lemma is_nest_nonempty: "is_nest h sa d \<Longrightarrow> sa < length h \<and> props (h ! sa) \<noteq> []"
  by (cases d) (auto simp: is_nest_Suc)

lemma is_nest_frame:
  "is_nest h sa d \<Longrightarrow> length h \<le> length h' \<Longrightarrow>
   (\<forall>b<length h. props (h ! b) \<noteq> [] \<longrightarrow> h' ! b = h ! b) \<Longrightarrow> is_nest h' sa d"
proof (induction d arbitrary: sa)
  case 0
  then show ?case by auto
next
  case (Suc d)
  from Suc.prems(1) obtain sb w where
    s: "sa < length h" "props (h ! sa) = [(''a'', Data (Ref sb) True w)]"
       "sb < length h" "kind (h ! sb) = Plain" "is_nest h sb d"
    by (auto simp: is_nest_Suc)
  from Suc.IH[OF s(5) Suc.prems(2,3)] have n: "is_nest h' sb d" .
  from is_nest_nonempty[OF s(5)] Suc.prems(3) have "h' ! sb = h ! sb" by simp
  moreover from s(1,2) Suc.prems(3) have "h' ! sa = h ! sa" by simp
  ultimately show ?case using s n Suc.prems(2) by (auto simp: is_nest_Suc)
qed

lemma parse_nest:
  "\<exists>sa h'. parse (nest d) h = (Ref sa, h') \<and> is_nest h' sa d \<and> kind (h' ! sa) = Plain
      \<and> length h \<le> length h' \<and> (\<forall>b<length h. h' ! b = h ! b)"
proof (induction d)
  case 0
  show ?case by (simp add: alloc_def json_object_def nth_append)
next
  case (Suc d)
  then obtain sb h1 where p: "parse (nest d) h = (Ref sb, h1)" "is_nest h1 sb d"
    "kind (h1 ! sb) = Plain" "length h \<le> length h1" "\<forall>b<length h. h1 ! b = h ! b" by blast
  let ?ob = "json_object [(''a'', Ref sb)]"
  have "is_nest (h1 @ [?ob]) sb d"
    by (rule is_nest_frame[OF p(2)]) (simp_all add: nth_append)
  with p is_nest_nonempty[OF p(2)] show ?case
    by (auto simp: alloc_def is_nest_Suc nth_append json_object_def)
qed

lemma order_keys_c: "order_keys [''c''] = [''c'']" by code_simp
lemma order_keys_a: "order_keys [''a''] = [''a'']" by code_simp

lemma Object_keys_single:
  "a < length h \<Longrightarrow> props (h ! a) = [(k, Data v True w)] \<Longrightarrow> order_keys [k] = [k] \<Longrightarrow>
   Object_keys h (Ref a) = Inr [k]"
  by (simp add: Object_keys_def deref_def own_enumerable_keys_def own_property_keys_def
      enumerable_key_def slot_enumerable_def)

lemma safeMerge_nest:
  assumes "is_nest (store st) sa d" "ta < length (store st)" "store st ! ta = null_object"
  shows "\<exists>st'. safeMerge (Suc d + m) st (Ref ta) (Ref sa) = (Normal (Ref ta), st')
           \<and> console st' = console st \<and> length (store st) \<le> length (store st')
           \<and> (\<forall>b<length (store st). b \<noteq> ta \<longrightarrow> store st' ! b = store st ! b)
           \<and> get_path (store st') (Ref ta) (replicate d ''a'' @ [''c'']) = Inr (Num 1)"
  using assms
proof (induction d arbitrary: st sa ta)
  case 0
  let ?h = "store st"
  from 0 have s: "sa < length ?h" "props (?h ! sa) = [(''c'', Data (Num 1) True True)]" by auto
  have keys: "Object_keys ?h (Ref sa) = Inr [''c'']"
    by (rule Object_keys_single[OF s order_keys_c])
  have g: "get ?h (Ref sa) ''c'' = Inr (Num 1)" using s by (simp add: get_own)
  have p: "put ?h (Ref ta) ''c'' (Num 1) = Inr (set_own ?h ta ''c'' (Data (Num 1) True True))"
    using 0(2,3) by (simp add: put_create null_object_def)
  have nd: "''c'' \<notin> DANGEROUS_KEYS" by (simp add: DANGEROUS_KEYS_def)
  let ?h' = "set_own ?h ta ''c'' (Data (Num 1) True True)"
  have run: "safeMerge (Suc 0 + m) st (Ref ta) (Ref sa) = (Normal (Ref ta), st\<lparr>store := ?h'\<rparr>)"
    using keys g p nd by (simp add: typeof_def)
  have gp: "get ?h' (Ref ta) ''c'' = Inr (Num 1)"
    using 0(2) by (intro get_own[where e = True and w = True]) (simp_all add: map_of_set_own)
  show ?case using run gp by (simp add: set_own_other)
next
  case (Suc d)
  let ?h = "store st"
  let ?f = "length ?h"
  from Suc.prems(1) obtain sb w where
    s: "sa < ?f" "props (?h ! sa) = [(''a'', Data (Ref sb) True w)]"
       "sb < ?f" "kind (?h ! sb) = Plain" "is_nest ?h sb d"
    by (auto simp: is_nest_Suc)
  have keys: "Object_keys ?h (Ref sa) = Inr [''a'']"
    by (rule Object_keys_single[OF s(1,2) order_keys_a])
  have nd: "''a'' \<notin> DANGEROUS_KEYS" by (simp add: DANGEROUS_KEYS_def)
  have ne: "sa \<noteq> ta" using s(2) Suc.prems(3) by (auto simp: null_object_def)
  let ?h2 = "fresh_child ?h ta ''a'' True"
  note fc = fresh_child_facts[OF Suc.prems(2)]
  have gt: "get ?h (Ref ta) ''a'' = Inr Undefined"
    using Suc.prems(2,3) by (simp add: get_absent null_object_def)
  have p: "put (?h @ [null_object]) (Ref ta) ''a'' (Ref ?f) = Inr ?h2"
    using Suc.prems(2,3) unfolding fresh_child_def
    by (intro put_create) (simp_all add: nth_append null_object_def)
  have gs: "get ?h2 (Ref sa) ''a'' = Inr (Ref sb)"
    using s ne fc(1,3) by (intro get_own[where e = True and w = w]) simp_all
  have step: "safeMerge_loop (Suc d + m) st (Ref ta) (Ref sa) [''a'']
         = and_then (safeMerge (Suc d + m) (st\<lparr>store := ?h2\<rparr>) (Ref ?f) (Ref sb))
             (\<lambda>st1. safeMerge_loop (Suc d + m) st1 (Ref ta) (Ref sa) [])"
    by (rule loop_descend_fresh[OF nd s(1) _ s(3,4) Suc.prems(2) gt _ p fc(5) gs])
       (simp_all add: s(2) truthy_def)
  have nest2: "is_nest ?h2 sb d"
  proof (rule is_nest_frame[OF s(5)])
    show "length ?h \<le> length ?h2" by (simp add: fc(1))
    show "\<forall>b<length ?h. props (?h ! b) \<noteq> [] \<longrightarrow> ?h2 ! b = ?h ! b"
      using Suc.prems(3) by (intro allI impI fc(3)) (auto simp: null_object_def)
  qed
  from Suc.IH[of "st\<lparr>store := ?h2\<rparr>" sb ?f] nest2 fc(1,2)
  obtain st1 where sub: "safeMerge (Suc d + m) (st\<lparr>store := ?h2\<rparr>) (Ref ?f) (Ref sb)
        = (Normal (Ref ?f), st1)"
    and c1: "console st1 = console st" and l1: "length ?h2 \<le> length (store st1)"
    and fr: "\<forall>b<length ?h2. b \<noteq> ?f \<longrightarrow> store st1 ! b = ?h2 ! b"
    and gp: "get_path (store st1) (Ref ?f) (replicate d ''a'' @ [''c'']) = Inr (Num 1)"
    by auto
  have run: "safeMerge (Suc (Suc d) + m) st (Ref ta) (Ref sa) = (Normal (Ref ta), st1)"
    using keys step sub by (simp add: and_then_def)
  from fr Suc.prems(2) fc(1) have ta1: "store st1 ! ta = ?h2 ! ta" by simp
  have "get (store st1) (Ref ta) ''a'' = Inr (Ref ?f)"
    using Suc.prems(2) l1 fc(1,4) ta1 by (intro get_own[where e = True and w = True]) simp_all
  with gp have gp': "get_path (store st1) (Ref ta) (replicate (Suc d) ''a'' @ [''c'']) = Inr (Num 1)"
    by simp
  have "\<forall>b<length ?h. b \<noteq> ta \<longrightarrow> store st1 ! b = ?h ! b"
    using fr fc(1,3) by auto
  with run c1 l1 gp' fc(1) show ?case by auto
qed


section \<open>C6: the safe merge has no depth bound\<close>

text \<open>
  Claim C6 says that recursion beyond \<open>max_depth\<close> yields a \<open>DepthExceeded\<close> violation and
  that scenario C is rejected at path \<open>a.b\<close>.  The code has no depth parameter, no counter
  and no such violation.  Scenario C on the code: the merge returns its target, writes no
  console line, and the target holds \<open>1\<close> at \<open>a.b.c\<close>.
\<close>

theorem C6_scenario_c_counterexample:
  "fst scenario_c_run = Normal (Ref 17)
   \<and> console (snd scenario_c_run) = []
   \<and> get_path (store (snd scenario_c_run)) (Ref 17) [''a'', ''b'', ''c''] = Inr (Num 1)"
  by code_simp

text \<open>
  C6, amended: \<^verbatim>\<open>safeMerge\<close> bounds no depth.  For every depth \<open>d\<close>, merging the parsed source
  \<^verbatim>\<open>{"a":{"a": ... {"c":1}}}\<close> with \<open>d\<close> nested levels into an empty object without prototype
  returns the target (the call stack permitting: a nesting budget of \<open>d + 1\<close> or more),
  writes no console line, and leaves the value \<open>1\<close> in the target at depth \<open>d\<close>, under the
  path \<open>a. ... .a.c\<close>.
\<close>

theorem C6_no_depth_bound:
  assumes "ta < length h" "h ! ta = null_object"
  shows "\<exists>st'. safeMerge_json (Suc d + m) h (Ref ta) (nest d) = (Normal (Ref ta), st')
           \<and> console st' = []
           \<and> get_path (store st') (Ref ta) (replicate d ''a'' @ [''c'']) = Inr (Num 1)"
proof -
  from parse_nest[of d h] obtain sa h' where
    p: "parse (nest d) h = (Ref sa, h')" "is_nest h' sa d" "length h \<le> length h'"
       "\<forall>b<length h. h' ! b = h ! b" by blast
  from p assms have t: "ta < length h'" "h' ! ta = null_object" by auto
  from safeMerge_nest[of "\<lparr>store = h', console = []\<rparr>" sa d ta m] p(2) t
  show ?thesis by (auto simp: safeMerge_json_def p(1))
qed

theorem C6_no_depth_bound_witness:
  "17 < length (initial_heap @ [null_object])
   \<and> (initial_heap @ [null_object]) ! 17 = null_object
   \<and> (\<exists>st'. safeMerge_json 3 (initial_heap @ [null_object]) (Ref 17) (nest 2)
               = (Normal (Ref 17), st')
           \<and> console st' = []
           \<and> get_path (store st') (Ref 17) [''a'', ''a'', ''c''] = Inr (Num 1))"
proof -
  have 1: "17 < length (initial_heap @ [null_object])" by code_simp
  have 2: "(initial_heap @ [null_object]) ! 17 = null_object" by code_simp
  have 3: "Suc 2 + 0 = (3::nat)" "replicate 2 ''a'' @ [''c''] = [''a'', ''a'', ''c'']"
    by (simp_all add: numeral_2_eq_2)
  from C6_no_depth_bound[OF 1 2, of 2 0] 1 2 show ?thesis unfolding 3 by simp
qed

section \<open>Shielded targets\<close>

lemma outside_simps [simp]:
  "outside X Undefined" "outside X Null" "outside X (Bool b)" "outside X (Num n)" "outside X NaN"
  "outside X (Str s)" "outside X (Ref a) = (a \<notin> set X)"
  by (simp_all add: outside_def)

lemma shielded_D:
  assumes "shielded h X t"
  shows "t \<in> set X" "t < length h" "\<And>x. x \<in> set X \<Longrightarrow> x < length h"
    "NumberPrototype \<notin> set X" "StringPrototype \<notin> set X" "BooleanPrototype \<notin> set X"
    "\<And>a. a < length h \<Longrightarrow> a \<notin> set X \<or> a = t \<Longrightarrow> no_ref_into (set X) (h ! a)"
  using assms by (auto simp: shielded_def list_all_iff)

lemma shielded_I:
  assumes "t \<in> set X" "\<And>x. x \<in> set X \<Longrightarrow> x < length h"
    "NumberPrototype \<notin> set X" "StringPrototype \<notin> set X" "BooleanPrototype \<notin> set X"
    "\<And>a. a < length h \<Longrightarrow> a \<notin> set X \<or> a = t \<Longrightarrow> no_ref_into (set X) (h ! a)"
  shows "shielded h X t"
proof -
  have "(a \<in> set X \<and> a \<noteq> t) \<or> no_ref_into (set X) (h ! a)" if "a < length h" for a
  proof (cases "a \<notin> set X \<or> a = t")
    case True
    from assms(6)[OF that True] show ?thesis ..
  next
    case False
    then show ?thesis by simp
  qed
  then have "\<forall>a\<in>set [0..<length h]. (a \<in> set X \<and> a \<noteq> t) \<or> no_ref_into (set X) (h ! a)"
    by simp
  with assms(1-5) show ?thesis unfolding shielded_def list_all_iff by blast
qed

lemma no_ref_into_slot:
  "no_ref_into X ob \<Longrightarrow> map_of (props ob) k = Some (Data (Ref b) e w) \<Longrightarrow> b \<notin> X"
  by (auto simp: no_ref_into_def list_all_iff dest!: map_of_SomeD)

lemma no_ref_into_proto: "no_ref_into X ob \<Longrightarrow> proto ob = Some p \<Longrightarrow> p \<notin> X"
  by (auto simp: no_ref_into_def)

lemma find_from_readable:
  assumes "shielded h X t"
  shows "a \<notin> set X \<or> a = t \<Longrightarrow> find_from n h a k = Some (holder, s) \<Longrightarrow>
         holder \<notin> set X \<or> holder = t"
proof (induction n arbitrary: a)
  case 0
  then show ?case by simp
next
  case (Suc n)
  show ?case
  proof (cases "a < length h")
    case False
    with Suc.prems show ?thesis by (simp add: deref_def)
  next
    case True
    note nr = shielded_D(7)[OF assms True Suc.prems(1)]
    show ?thesis
    proof (cases "map_of (props (h ! a)) k")
      case (Some s')
      with Suc.prems True show ?thesis by (auto simp: deref_def)
    next
      case None
      with Suc.prems True obtain p where p: "proto (h ! a) = Some p"
        "find_from n h p k = Some (holder, s)"
        by (auto simp: deref_def split: option.splits)
      from no_ref_into_proto[OF nr p(1)] have "p \<notin> set X \<or> p = t" by simp
      from Suc.IH[OF this p(2)] show ?thesis .
    qed
  qed
qed

lemma get_chain_shielded:
  assumes sh: "shielded h X t" and a: "a \<notin> set X \<or> a = t"
    and rp: "outside X (receiver_proto h base)"
  shows "outside X (get_chain h base a k)"
proof (cases "find_slot h a k")
  case None
  then show ?thesis by (simp add: get_chain_def)
next
  case (Some hs)
  obtain holder s where hs: "hs = (holder, s)" by (cases hs)
  from Some hs have f: "find_from (length h) h a k = Some (holder, s)"
    by (simp add: find_slot_def)
  from find_from_readable[OF sh a f] have r: "holder \<notin> set X \<or> holder = t" .
  from find_slot_Some_deref Some hs
  have ho: "holder < length h" "map_of (props (h ! holder)) k = Some s" by auto
  note nr = shielded_D(7)[OF sh ho(1) r]
  show ?thesis
  proof (cases s)
    case (Data v e w)
    with Some hs ho nr show ?thesis
      by (cases v) (auto simp: get_chain_def dest: no_ref_into_slot)
  next
    case ProtoAccessor
    with Some hs rp show ?thesis by (simp add: get_chain_def)
  qed
qed

lemma receiver_proto_shielded:
  assumes sh: "shielded h X t" and b: "outside X base \<or> base = Ref t"
  shows "outside X (receiver_proto h base)"
proof (cases base)
  case (Ref a)
  show ?thesis
  proof (cases "a < length h")
    case True
    from b Ref have "a \<notin> set X \<or> a = t" by auto
    from shielded_D(7)[OF sh True this] True Ref show ?thesis
      by (auto simp: receiver_proto_def deref_def split: option.splits dest: no_ref_into_proto)
  next
    case False
    with Ref show ?thesis by (simp add: receiver_proto_def deref_def)
  qed
qed (use shielded_D(4,5,6)[OF sh] in \<open>simp_all add: receiver_proto_def\<close>)

lemma string_own_outside: "string_own s k = Some v \<Longrightarrow> outside X v"
  by (auto simp: string_own_def split: if_splits option.splits)

lemma get_shielded:
  assumes sh: "shielded h X t" and b: "outside X base \<or> base = Ref t"
    and g: "get h base k = Inr v"
  shows "outside X v"
proof -
  note rp = receiver_proto_shielded[OF sh b]
  note w = shielded_D(4,5,6)[OF sh]
  show ?thesis
  proof (cases base)
    case (Ref a)
    with b have "a \<notin> set X \<or> a = t" by auto
    from get_chain_shielded[OF sh this rp, of k] g Ref show ?thesis by (auto simp: get_def)
  next
    case (Str s)
    with g get_chain_shielded[OF sh _ rp, of StringPrototype k] w show ?thesis
      by (auto simp: get_def split: option.splits dest: string_own_outside)
  next
    case (Bool x)
    with g get_chain_shielded[OF sh _ rp, of BooleanPrototype k] w show ?thesis
      by (auto simp: get_def)
  next
    case (Num x)
    with g get_chain_shielded[OF sh _ rp, of NumberPrototype k] w show ?thesis
      by (auto simp: get_def)
  next
    case NaN
    with g get_chain_shielded[OF sh _ rp, of NumberPrototype k] w show ?thesis
      by (auto simp: get_def)
  qed (use g in \<open>simp_all add: get_def\<close>)
qed

lemma no_ref_set_prop:
  assumes "no_ref_into (set X) ob" "outside X v"
  shows "no_ref_into (set X) (ob\<lparr>props := set_prop k (Data v e w) (props ob)\<rparr>)"
proof -
  from assms(2) have "(case Data v e w of
        Data v e w \<Rightarrow> (case v of Ref b \<Rightarrow> b \<notin> set X | _ \<Rightarrow> True) | ProtoAccessor \<Rightarrow> True)"
    by (cases v) auto
  with assms(1) show ?thesis
    unfolding no_ref_into_def by (auto intro!: list_all_set_prop)
qed

lemma no_ref_proto:
  "no_ref_into (set X) ob \<Longrightarrow> p = None \<or> (\<exists>q. p = Some q \<and> q \<notin> set X) \<Longrightarrow>
   no_ref_into (set X) (ob\<lparr>proto := p\<rparr>)"
  by (auto simp: no_ref_into_def)

lemma shielded_update:
  assumes sh: "shielded h X t" and a: "a < length h"
    and ob: "no_ref_into (set X) ob'"
  shows "shielded (h[a := ob']) X t"
proof (rule shielded_I)
  fix a'
  assume "a' < length (h[a := ob'])" "a' \<notin> set X \<or> a' = t"
  with shielded_D(7)[OF sh, of a'] ob show "no_ref_into (set X) (h[a := ob'] ! a')"
    by (cases "a' = a") simp_all
qed (use shielded_D[OF sh] in simp_all)

lemma shielded_fresh:
  assumes sh: "shielded h X t"
  shows "shielded (h @ [null_object]) X t"
proof (rule shielded_I)
  fix a
  assume "a < length (h @ [null_object])" "a \<notin> set X \<or> a = t"
  with shielded_D(7)[OF sh, of a] show "no_ref_into (set X) ((h @ [null_object]) ! a)"
    by (cases "a < length h") (auto simp: nth_append no_ref_into_def null_object_def)
qed (use shielded_D[OF sh] in \<open>auto simp: less_SucI\<close>)

lemma put_shielded:
  assumes sh: "shielded h X t" and b: "outside X base \<or> base = Ref t"
    and v: "outside X v" and p: "put h base k v = Inr h'"
  shows "shielded h' X t" "length h' = length h"
    "\<And>x. x \<in> set X \<Longrightarrow> x \<noteq> t \<Longrightarrow> h' ! x = h ! x"
    "outside X base \<Longrightarrow> h' ! t = h ! t"
    "\<And>k'. k' \<noteq> k \<Longrightarrow> map_of (props (h' ! t)) k' = map_of (props (h ! t)) k'"
proof -
  show "length h' = length h" by (rule put_length[OF p])
  show "map_of (props (h' ! t)) k' = map_of (props (h ! t)) k'" if "k' \<noteq> k" for k'
    using that by (rule put_slot_other[OF p])
  show "h' ! x = h ! x" if "x \<in> set X" "x \<noteq> t" for x
    using b that by (intro put_other[OF p]) auto
  show "h' ! t = h ! t" if "outside X base"
    using shielded_D(1)[OF sh] that by (intro put_other[OF p]) auto
  from put_Inr_Done[OF p] show "shielded h' X t"
  proof
    assume "ordinary_set h base k v = Done h'"
    from ordinary_set_Done[OF this]
    have "h' = h
      \<or> (\<exists>a e. base = Ref a \<and> a < length h \<and> h' = set_own h a k (Data v e True))
      \<or> (\<exists>a p. base = Ref a \<and> a < length h \<and> h' = h[a := (h ! a)\<lparr>proto := p\<rparr>]
            \<and> (\<forall>q. p = Some q \<longrightarrow> v = Ref q))" by blast
    then show ?thesis
    proof (elim disjE exE conjE)
      fix a e
      assume a: "base = Ref a" "a < length h" and h': "h' = set_own h a k (Data v e True)"
      from a b have "a \<notin> set X \<or> a = t" by auto
      from no_ref_set_prop[OF shielded_D(7)[OF sh a(2) this] v]
      show ?thesis unfolding h' set_own_def by (rule shielded_update[OF sh a(2)])
    next
      fix a p
      assume a: "base = Ref a" "a < length h" and h': "h' = h[a := (h ! a)\<lparr>proto := p\<rparr>]"
        and pp: "\<forall>q. p = Some q \<longrightarrow> v = Ref q"
      from a b have r: "a \<notin> set X \<or> a = t" by auto
      from pp v have "p = None \<or> (\<exists>q. p = Some q \<and> q \<notin> set X)" by (cases p) auto
      from no_ref_proto[OF shielded_D(7)[OF sh a(2) r] this]
      show ?thesis unfolding h' by (rule shielded_update[OF sh a(2)])
    qed (use sh in simp)
  qed (use sh in simp)
qed

text \<open>A nested call, whose target lies outside \<open>X\<close>, leaves every object of \<open>X\<close> as it is.\<close>

lemma safeMerge_shielded:
  assumes pre: "shielded (store st) X t" "outside X tv" "outside X sv"
    and run: "safeMerge n st tv sv = (r, st')"
  shows "shielded (store st') X t \<and> (\<forall>x \<in> set X. store st' ! x = store st ! x)
         \<and> length (store st) \<le> length (store st')"
proof -
  let ?Pre = "\<lambda>st tv sv. shielded (store st) X t \<and> outside X tv \<and> outside X sv"
  let ?Post = "\<lambda>st st'. shielded (store st) X t \<longrightarrow>
       shielded (store st') X t \<and> (\<forall>x \<in> set X. store st' ! x = store st ! x)
       \<and> length (store st) \<le> length (store st')"
  have "?Post st st'"
  proof (rule safeMerge_rule[where Pre = ?Pre and Post = ?Post, OF _ _ _ _ _ _ _ _ run])
    show "?Pre st tv sv" using pre by simp
  next
    fix st tv sv k v h'
    assume p: "?Pre st tv sv" and g: "get (store st) sv k = Inr v"
      and w: "put (store st) tv k v = Inr h'"
    from p have sh: "shielded (store st) X t" and o: "outside X tv \<or> tv = Ref t"
      and ot: "outside X tv" and os: "outside X sv \<or> sv = Ref t" by simp_all
    note ps = put_shielded[OF sh o get_shielded[OF sh os g] w]
    have "\<forall>x \<in> set X. h' ! x = store st ! x"
    proof
      fix x assume x: "x \<in> set X"
      with ps(3)[OF x] ps(4)[OF ot] show "h' ! x = store st ! x" by (cases "x = t") auto
    qed
    with ps(1,2) show "?Post st (st\<lparr>store := h'\<rparr>)" by simp
  next
    fix st tv and sv :: val and k h2
    assume p: "?Pre st tv sv"
      and w: "put (store st @ [null_object]) tv k (Ref (length (store st))) = Inr h2"
    from p have sh: "shielded (store st) X t" and o: "outside X tv \<or> tv = Ref t"
      and ot: "outside X tv" by simp_all
    from shielded_D(3)[OF sh] have "outside X (Ref (length (store st)))" by auto
    note ps = put_shielded[OF shielded_fresh[OF sh] o this w]
    have "\<forall>x \<in> set X. h2 ! x = store st ! x"
    proof
      fix x assume x: "x \<in> set X"
      from shielded_D(3)[OF sh x] have "(store st @ [null_object]) ! x = store st ! x"
        by (simp add: nth_append)
      with ps(3)[OF x] ps(4)[OF ot] show "h2 ! x = store st ! x" by (cases "x = t") auto
    qed
    with ps(1,2) show "?Post st (st\<lparr>store := h2\<rparr>)" by simp
  next
    fix st tv sv k tv' sv'
    assume p: "?Pre st tv sv" and g: "get (store st) tv k = Inr tv'"
      and g': "get (store st) sv k = Inr sv'"
    from p have sh: "shielded (store st) X t" and o: "outside X tv \<or> tv = Ref t"
      and os: "outside X sv \<or> sv = Ref t" by simp_all
    from get_shielded[OF sh o g] get_shielded[OF sh os g'] sh show "?Pre st tv' sv'" by simp
  qed (auto simp: warn_def)
  with pre show ?thesis by simp
qed

lemma safeMerge_loop_top:
  assumes "shielded (store st) X t" "outside X source"
    "safeMerge_loop n st (Ref t) source ks = (r, st')" "k \<notin> set ks"
  shows "map_of (props (store st' ! t)) k = map_of (props (store st ! t)) k
         \<and> shielded (store st') X t
         \<and> (\<forall>x \<in> set X. x \<noteq> t \<longrightarrow> store st' ! x = store st ! x)"
  using assms
proof (induction ks arbitrary: st)
  case Nil
  then show ?case by simp
next
  case (Cons k' ks)
  note sh = Cons.prems(1) and src = Cons.prems(2)
  from Cons.prems(4) have kk: "k \<noteq> k'" "k \<notin> set ks" by auto
  have os: "outside X source \<or> source = Ref t" using src by simp
  have ot: "outside X (Ref t) \<or> Ref t = Ref t" by simp
  have fresh: "map_of (props (h2 ! t)) k = map_of (props (store st ! t)) k
      \<and> shielded h2 X t \<and> (\<forall>x \<in> set X. x \<noteq> t \<longrightarrow> h2 ! x = store st ! x)"
    if h2: "h2 = store st
        \<or> put (store st @ [null_object]) (Ref t) k' (Ref (length (store st))) = Inr h2" for h2
    using h2
  proof
    assume "h2 = store st" with sh show ?thesis by simp
  next
    assume w: "put (store st @ [null_object]) (Ref t) k' (Ref (length (store st))) = Inr h2"
    from shielded_D(3)[OF sh] have "outside X (Ref (length (store st)))" by auto
    note ps = put_shielded[OF shielded_fresh[OF sh] ot this w]
    from shielded_D(2,3)[OF sh] ps(1) ps(3) ps(5)[of k] kk(1) show ?thesis
      by (auto simp: nth_append)
  qed
  from Cons.prems(3) show ?case
  proof (cases rule: safeMerge_loop_cases)
    case denied
    from Cons.IH[OF _ src denied(2) kk(2)] sh show ?thesis by (simp add: warn_def)
  next
    case (thrown e)
    with sh show ?thesis by simp
  next
    case (assign sv h')
    note ps = put_shielded[OF sh ot get_shielded[OF sh os assign(2)] assign(3)]
    from Cons.IH[OF _ src assign(4) kk(2)] ps(1) ps(3) ps(5)[of k] kk(1)
    show ?thesis by auto
  next
    case (descend h2 tv' sv' r1 st1)
    note f = fresh[OF descend(2)]
    from f have sh2: "shielded h2 X t" by simp
    from get_shielded[OF sh2 ot descend(3)] have o1: "outside X tv'" .
    from get_shielded[OF sh2 os descend(4)] have o2: "outside X sv'" .
    from safeMerge_shielded[OF _ o1 o2 descend(5)] sh2
    have sub: "shielded (store st1) X t" "\<forall>x \<in> set X. store st1 ! x = h2 ! x" by simp_all
    from sub(2) shielded_D(1)[OF sh] have t1: "store st1 ! t = h2 ! t" by simp
    from descend(6) show ?thesis
    proof
      assume "\<exists>x. r1 = Normal x \<and> safeMerge_loop n st1 (Ref t) source ks = (r, st')"
      then have "safeMerge_loop n st1 (Ref t) source ks = (r, st')" by blast
      from Cons.IH[OF sub(1) src this kk(2)] f sub(2) t1 show ?thesis by auto
    next
      assume "(\<forall>x. r1 \<noteq> Normal x) \<and> r = r1 \<and> st' = st1"
      with f sub t1 show ?thesis by auto
    qed
  next
    case (stuck h2 e)
    from fresh[OF stuck(2)] stuck(4) show ?thesis by simp
  qed
qed

lemma set_order_keys [simp]: "set (order_keys ks) = set ks"
  by (auto simp: order_keys_def)

lemma enumerable_key_own: "enumerable_key ob k \<Longrightarrow> k \<in> fst ` set (props ob)"
  by (auto simp: enumerable_key_def split: option.splits dest!: map_of_SomeD
      intro: rev_image_eqI)

lemma set_own_enumerable_keys: "set (own_enumerable_keys ob) = {k. enumerable_key ob k}"
  using enumerable_key_own[of ob]
  by (auto simp: own_enumerable_keys_def own_property_keys_def)

section \<open>Objects that nothing else refers to\<close>

lemma guarded_D:
  assumes "guarded h X rd"
  shows "\<And>x. x \<in> set X \<Longrightarrow> x < length h"
    "NumberPrototype \<notin> set X" "StringPrototype \<notin> set X" "BooleanPrototype \<notin> set X"
    "\<And>a. a \<notin> set X \<Longrightarrow> rd a"
    "\<And>a. a < length h \<Longrightarrow> rd a \<Longrightarrow> no_ref_into (set X) (h ! a)"
  using assms by (auto simp: guarded_def)

lemma find_from_guarded:
  assumes "guarded h X rd"
  shows "rd a \<Longrightarrow> find_from n h a k = Some (holder, s) \<Longrightarrow> rd holder"
proof (induction n arbitrary: a)
  case 0
  then show ?case by simp
next
  case (Suc n)
  show ?case
  proof (cases "a < length h")
    case False
    with Suc.prems show ?thesis by (simp add: deref_def)
  next
    case True
    note nr = guarded_D(6)[OF assms True Suc.prems(1)]
    show ?thesis
    proof (cases "map_of (props (h ! a)) k")
      case (Some s')
      with Suc.prems True show ?thesis by (auto simp: deref_def)
    next
      case None
      with Suc.prems True obtain p where p: "proto (h ! a) = Some p"
        "find_from n h p k = Some (holder, s)"
        by (auto simp: deref_def split: option.splits)
      from no_ref_into_proto[OF nr p(1)] have "rd p" by (rule guarded_D(5)[OF assms])
      from Suc.IH[OF this p(2)] show ?thesis .
    qed
  qed
qed

lemma get_chain_guarded:
  assumes g: "guarded h X rd" and a: "rd a"
    and rp: "outside X (receiver_proto h base)"
  shows "outside X (get_chain h base a k)"
proof (cases "find_slot h a k")
  case None
  then show ?thesis by (simp add: get_chain_def)
next
  case (Some hs)
  obtain holder s where hs: "hs = (holder, s)" by (cases hs)
  from Some hs have f: "find_from (length h) h a k = Some (holder, s)"
    by (simp add: find_slot_def)
  from find_from_guarded[OF g a f] have r: "rd holder" .
  from find_slot_Some_deref Some hs
  have ho: "holder < length h" "map_of (props (h ! holder)) k = Some s" by auto
  note nr = guarded_D(6)[OF g ho(1) r]
  show ?thesis
  proof (cases s)
    case (Data v e w)
    with Some hs ho nr show ?thesis
      by (cases v) (auto simp: get_chain_def dest: no_ref_into_slot)
  next
    case ProtoAccessor
    with Some hs rp show ?thesis by (simp add: get_chain_def)
  qed
qed

lemma receiver_proto_guarded:
  assumes g: "guarded h X rd" and b: "\<forall>a. base = Ref a \<longrightarrow> rd a"
  shows "outside X (receiver_proto h base)"
proof (cases base)
  case (Ref a)
  show ?thesis
  proof (cases "a < length h")
    case True
    from b Ref have "rd a" by auto
    from guarded_D(6)[OF g True this] True Ref show ?thesis
      by (auto simp: receiver_proto_def deref_def split: option.splits dest: no_ref_into_proto)
  next
    case False
    with Ref show ?thesis by (simp add: receiver_proto_def deref_def)
  qed
qed (use guarded_D(2,3,4)[OF g] in \<open>simp_all add: receiver_proto_def\<close>)

lemma get_guarded:
  assumes gd: "guarded h X rd" and b: "\<forall>a. base = Ref a \<longrightarrow> rd a"
    and g: "get h base k = Inr v"
  shows "outside X v"
proof -
  note rp = receiver_proto_guarded[OF gd b]
  note w = guarded_D(2,3,4)[OF gd]
  note o = guarded_D(5)[OF gd]
  show ?thesis
  proof (cases base)
    case (Ref a)
    with b have "rd a" by auto
    from get_chain_guarded[OF gd this rp, of k] g Ref show ?thesis by (auto simp: get_def)
  next
    case (Str s)
    with g get_chain_guarded[OF gd o[OF w(2)] rp, of k] show ?thesis
      by (auto simp: get_def split: option.splits dest: string_own_outside)
  next
    case (Bool x)
    with g get_chain_guarded[OF gd o[OF w(3)] rp, of k] show ?thesis
      by (auto simp: get_def)
  next
    case (Num x)
    with g get_chain_guarded[OF gd o[OF w(1)] rp, of k] show ?thesis
      by (auto simp: get_def)
  next
    case NaN
    with g get_chain_guarded[OF gd o[OF w(1)] rp, of k] show ?thesis
      by (auto simp: get_def)
  qed (use g in \<open>simp_all add: get_def\<close>)
qed

lemma guarded_update:
  assumes g: "guarded h X rd" and a: "a < length h"
    and ob: "no_ref_into (set X) ob'"
  shows "guarded (h[a := ob']) X rd"
  unfolding guarded_def
proof (intro conjI allI impI ballI)
  fix a'
  assume "a' < length (h[a := ob'])" "rd a'"
  with guarded_D(6)[OF g, of a'] ob show "no_ref_into (set X) (h[a := ob'] ! a')"
    by (cases "a' = a") simp_all
qed (use guarded_D[OF g] in simp_all)

lemma guarded_fresh:
  assumes g: "guarded h X rd"
  shows "guarded (h @ [null_object]) X rd"
  unfolding guarded_def
proof (intro conjI allI impI ballI)
  fix a
  assume "a < length (h @ [null_object])" "rd a"
  with guarded_D(6)[OF g, of a] show "no_ref_into (set X) ((h @ [null_object]) ! a)"
    by (cases "a < length h") (auto simp: nth_append no_ref_into_def null_object_def)
qed (use guarded_D[OF g] in \<open>auto simp: less_SucI\<close>)

lemma put_guarded:
  assumes g: "guarded h X rd" and b: "\<forall>a. base = Ref a \<longrightarrow> rd a"
    and v: "outside X v" and p: "put h base k v = Inr h'"
  shows "guarded h' X rd"
proof -
  from put_Inr_Done[OF p] show "guarded h' X rd"
  proof
    assume "ordinary_set h base k v = Done h'"
    from ordinary_set_Done[OF this]
    have "h' = h
      \<or> (\<exists>a e. base = Ref a \<and> a < length h \<and> h' = set_own h a k (Data v e True))
      \<or> (\<exists>a p. base = Ref a \<and> a < length h \<and> h' = h[a := (h ! a)\<lparr>proto := p\<rparr>]
            \<and> (\<forall>q. p = Some q \<longrightarrow> v = Ref q))" by blast
    then show ?thesis
    proof (elim disjE exE conjE)
      fix a e
      assume a: "base = Ref a" "a < length h" and h': "h' = set_own h a k (Data v e True)"
      from a b have "rd a" by auto
      from no_ref_set_prop[OF guarded_D(6)[OF g a(2) this] v]
      show ?thesis unfolding h' set_own_def by (rule guarded_update[OF g a(2)])
    next
      fix a p
      assume a: "base = Ref a" "a < length h" and h': "h' = h[a := (h ! a)\<lparr>proto := p\<rparr>]"
        and pp: "\<forall>q. p = Some q \<longrightarrow> v = Ref q"
      from a b have r: "rd a" by auto
      from pp v have "p = None \<or> (\<exists>q. p = Some q \<and> q \<notin> set X)" by (cases p) auto
      from no_ref_proto[OF guarded_D(6)[OF g a(2) r] this]
      show ?thesis unfolding h' by (rule guarded_update[OF g a(2)])
    qed (use g in simp)
  qed (use g in simp)
qed

section \<open>Sealed sources\<close>

lemma kinds_kept_refl [simp]: "kinds_kept h h"
  by (simp add: kinds_kept_def)

lemma kinds_kept_trans: "kinds_kept h1 h2 \<Longrightarrow> kinds_kept h2 h3 \<Longrightarrow> kinds_kept h1 h3"
  by (auto simp: kinds_kept_def)

lemma put_kind: "put h base k v = Inr h' \<Longrightarrow> kind (h' ! a) = kind (h ! a)"
  by (drule put_Inr_Done)
     (auto dest!: ordinary_set_Done simp: set_own_def nth_list_update split: if_splits)

lemma put_kinds_kept: "put h base k v = Inr h' \<Longrightarrow> kinds_kept h h'"
  by (simp add: kinds_kept_def put_kind put_length)

lemma is_container_Ref:
  "a < length h \<Longrightarrow> is_container h (Ref a) \<longleftrightarrow> kind (h ! a) = Plain"
  by (cases "kind (h ! a)") (auto simp: is_container_def typeof_def isArray_def deref_def)

lemma is_container_dangling: "\<not> a < length h \<Longrightarrow> is_container h (Ref a)"
  by (simp add: is_container_def typeof_def isArray_def deref_def)

lemma is_container_kept:
  assumes "kinds_kept h h'" "is_container h' c"
  shows "is_container h c"
proof (cases c)
  case (Ref a)
  show ?thesis
  proof (cases "a < length h")
    case True
    with assms Ref show ?thesis by (auto simp: is_container_Ref kinds_kept_def)
  next
    case False
    with Ref show ?thesis by (simp add: is_container_dangling)
  qed
qed (use assms(2) in \<open>auto simp: is_container_def typeof_def isArray_def\<close>)

lemma sealed_D:
  assumes "sealed h X"
  shows "guarded h X (\<lambda>a. a \<notin> set X)" "\<And>x. x \<in> set X \<Longrightarrow> x < length h"
    "\<And>x. x \<in> set X \<Longrightarrow> kind (h ! x) = Plain"
    "\<And>x. x \<in> set X \<Longrightarrow> is_container h (Ref x)"
proof -
  from assms show g: "guarded h X (\<lambda>a. a \<notin> set X)" by (simp add: sealed_def)
  show l: "x < length h" if "x \<in> set X" for x using guarded_D(1)[OF g that] .
  show k: "kind (h ! x) = Plain" if "x \<in> set X" for x using assms that by (simp add: sealed_def)
  show "is_container h (Ref x)" if "x \<in> set X" for x
    using l[OF that] k[OF that] by (simp add: is_container_Ref)
qed

lemma sealed_cong:
  assumes "guarded h' X (\<lambda>a. a \<notin> set X)" "sealed h X" "\<forall>x \<in> set X. h' ! x = h ! x"
  shows "sealed h' X"
  using assms by (simp add: sealed_def)

text \<open>The two writing steps of the loop, for a target outside \<open>X\<close>.\<close>

lemma sealed_assign:
  assumes s: "sealed h X" and t: "outside X tv" and g: "get h sv k = Inr v"
    and nc: "\<not> is_container h v" and p: "put h tv k v = Inr h'"
  shows "sealed h' X \<and> (\<forall>x \<in> set X. h' ! x = h ! x) \<and> kinds_kept h h'"
proof -
  have ov: "outside X v" using nc sealed_D(4)[OF s] by (cases v) auto
  have b: "\<forall>a. tv = Ref a \<longrightarrow> a \<notin> set X" using t by auto
  have u: "\<forall>x \<in> set X. h' ! x = h ! x" using t by (auto intro!: put_other[OF p])
  from sealed_cong[OF put_guarded[OF sealed_D(1)[OF s] b ov p] s u] u put_kinds_kept[OF p]
  show ?thesis by simp
qed

lemma sealed_fresh_put:
  assumes s: "sealed h X" and t: "outside X tv"
    and p: "put (h @ [null_object]) tv k (Ref (length h)) = Inr h'"
  shows "sealed h' X \<and> (\<forall>x \<in> set X. h' ! x = h ! x) \<and> kinds_kept h h'"
proof -
  have ov: "outside X (Ref (length h))" using sealed_D(2)[OF s] by auto
  have b: "\<forall>a. tv = Ref a \<longrightarrow> a \<notin> set X" using t by auto
  have u: "\<forall>x \<in> set X. h' ! x = h ! x"
  proof
    fix x assume x: "x \<in> set X"
    with t have "h' ! x = (h @ [null_object]) ! x" by (auto intro!: put_other[OF p])
    with sealed_D(2)[OF s x] show "h' ! x = h ! x" by (simp add: nth_append)
  qed
  have "kinds_kept h (h @ [null_object])" by (simp add: kinds_kept_def nth_append)
  from kinds_kept_trans[OF this put_kinds_kept[OF p]] have kk: "kinds_kept h h'" .
  from sealed_cong[OF put_guarded[OF guarded_fresh[OF sealed_D(1)[OF s]] b ov p] s u] u kk
  show ?thesis by simp
qed

lemma safeMerge_sealed:
  assumes pre: "sealed (store st) X" "outside X tv"
    and run: "safeMerge n st tv sv = (r, st')"
  shows "sealed (store st') X \<and> (\<forall>x \<in> set X. store st' ! x = store st ! x)
         \<and> kinds_kept (store st) (store st')"
proof -
  let ?Pre = "\<lambda>st tv (sv::val). sealed (store st) X \<and> outside X tv"
  let ?Post = "\<lambda>st st'. sealed (store st) X \<longrightarrow>
       sealed (store st') X \<and> (\<forall>x \<in> set X. store st' ! x = store st ! x)
       \<and> kinds_kept (store st) (store st')"
  have "?Post st st'"
  proof (rule safeMerge_rule[where Pre = ?Pre and Post = ?Post, OF _ _ _ _ _ _ _ _ run])
    show "?Pre st tv sv" using pre by simp
  next
    fix a b c :: state
    assume "?Post a b" "?Post b c"
    then show "?Post a c" by (auto intro: kinds_kept_trans)
  next
    fix st tv sv k v h'
    assume "?Pre st tv sv" "get (store st) sv k = Inr v" "put (store st) tv k v = Inr h'"
      "\<not> (typeof (store st) v = ''object'' \<and> v \<noteq> Null \<and> \<not> isArray (store st) v)"
    then show "?Post st (st\<lparr>store := h'\<rparr>)"
      using sealed_assign[of "store st" X tv sv k v h'] by (simp add: is_container_def)
  next
    fix st tv and sv :: val and k h2
    assume "?Pre st tv sv" "put (store st @ [null_object]) tv k (Ref (length (store st))) = Inr h2"
    then show "?Post st (st\<lparr>store := h2\<rparr>)"
      using sealed_fresh_put[of "store st" X tv k h2] by simp
  next
    fix st tv and sv sv' :: val and k tv'
    assume p: "?Pre st tv sv" and g: "get (store st) tv k = Inr tv'"
    from p have b: "\<forall>a. tv = Ref a \<longrightarrow> a \<notin> set X" by auto
    from get_guarded[OF sealed_D(1) b g] p show "?Pre st tv' sv'" by simp
  qed (auto simp: warn_def)
  with pre show ?thesis by simp
qed

section \<open>The safe merge comes to an end on a sealed source\<close>

lemma spine_kept:
  assumes "\<forall>x \<in> set X. h' ! x = h ! x" "kinds_kept h h'"
  shows "spine h X v n \<Longrightarrow> spine h' X v n"
proof (induction n arbitrary: v)
  case (Suc n)
  from Suc.prems obtain a where a: "v = Ref a" "a \<in> set X"
    and ch: "\<And>k c e w. (k, Data c e w) \<in> set (props (h ! a)) \<Longrightarrow> k \<notin> DANGEROUS_KEYS \<Longrightarrow>
           is_container h c \<Longrightarrow> spine h X c n" unfolding spine.simps by blast
  from a assms(1) have eq: "h' ! a = h ! a" by simp
  have "spine h' X c n"
    if "(k, Data c e w) \<in> set (props (h' ! a))" "k \<notin> DANGEROUS_KEYS" "is_container h' c"
    for k c e w
    using that ch[of k c e w] is_container_kept[OF assms(2) that(3)] Suc.IH[of c] eq by simp
  with a show ?case by auto
qed simp

lemma own_enumerable_slot:
  assumes "k \<in> set (own_enumerable_keys ob)"
  obtains c w where "map_of (props ob) k = Some (Data c True w)"
proof -
  from assms have "enumerable_key ob k" by (simp add: set_own_enumerable_keys)
  then obtain s where s: "map_of (props ob) k = Some s" "slot_enumerable s"
    by (auto simp: enumerable_key_def split: option.splits)
  then show ?thesis using that by (cases s) (auto simp: slot_enumerable_def)
qed

lemma safeMerge_loop_total:
  assumes sub: "\<And>st tv c. sealed (store st) X \<Longrightarrow> outside X tv \<Longrightarrow> spine (store st) X c m \<Longrightarrow>
                  fst (safeMerge m st tv c) \<noteq> OutOfFuel"
    and a: "a \<in> set X" and t: "outside X tv"
  shows "sealed (store st) X \<Longrightarrow> set ks \<subseteq> set (own_enumerable_keys (store st ! a)) \<Longrightarrow>
         spine (store st) X (Ref a) (Suc m) \<Longrightarrow>
         fst (safeMerge_loop m st tv (Ref a) ks) \<noteq> OutOfFuel"
proof (induction ks arbitrary: st)
  case Nil
  show ?case by simp
next
  case (Cons k ks)
  note s = Cons.prems(1)
  from Cons.prems(2) have k: "k \<in> set (own_enumerable_keys (store st ! a))"
    and ks: "set ks \<subseteq> set (own_enumerable_keys (store st ! a))" by simp_all
  note sp = Cons.prems(3)
  from sealed_D(2)[OF s a] have al: "a < length (store st)" .
  obtain r st' where run: "safeMerge_loop m st tv (Ref a) (k # ks) = (r, st')"
    by (cases "safeMerge_loop m st tv (Ref a) (k # ks)")
  have step: "fst (safeMerge_loop m st2 tv (Ref a) ks) \<noteq> OutOfFuel"
    if "sealed (store st2) X" "\<forall>x \<in> set X. store st2 ! x = store st ! x"
      "kinds_kept (store st) (store st2)" for st2
  proof (rule Cons.IH[OF that(1)])
    from that(2) a ks show "set ks \<subseteq> set (own_enumerable_keys (store st2 ! a))" by simp
    from spine_kept[OF that(2,3) sp] show "spine (store st2) X (Ref a) (Suc m)" .
  qed
  from run have "r \<noteq> OutOfFuel"
  proof (cases rule: safeMerge_loop_cases)
    case denied
    from step[of "warn st (BlockedKey k)"] s denied(2) show ?thesis by (simp add: warn_def)
  next
    case (thrown e)
    then show ?thesis by simp
  next
    case (assign sv h')
    from assign(5) have "\<not> is_container (store st) sv" by (simp add: is_container_def)
    from sealed_assign[OF s t assign(2) this assign(3)] step[of "st\<lparr>store := h'\<rparr>"] assign(4)
    show ?thesis by simp
  next
    case (descend h2 tv' sv' r1 st1)
    have h2: "sealed h2 X \<and> (\<forall>x \<in> set X. h2 ! x = store st ! x) \<and> kinds_kept (store st) h2"
      using descend(2) s sealed_fresh_put[OF s t] by auto
    from t have b: "\<forall>b. tv = Ref b \<longrightarrow> b \<notin> set X" by auto
    from h2 have s2: "sealed h2 X" by simp
    from get_guarded[OF sealed_D(1)[OF s2] b descend(3)] have ot: "outside X tv'" .
    from k obtain c w where c: "map_of (props (store st ! a)) k = Some (Data c True w)"
      by (rule own_enumerable_slot)
    from h2 a have eq: "h2 ! a = store st ! a" by simp
    from get_own[OF al c] descend(7) have cc: "is_container (store st) c"
      by (auto simp: is_container_def)
    from get_own[OF sealed_D(2)[OF s2 a], of k c True w] c eq descend(4)
    have sv': "sv' = c" by simp
    from sp map_of_SomeD[OF c] descend(1) cc have "spine (store st) X c m" by auto
    with h2 have "spine h2 X c m" by (auto intro: spine_kept)
    from sub[of "st\<lparr>store := h2\<rparr>" tv' c] s2 ot this descend(5) sv'
    have r1: "r1 \<noteq> OutOfFuel" by simp
    from safeMerge_sealed[OF _ ot descend(5)] s2
    have st1: "sealed (store st1) X" "\<forall>x \<in> set X. store st1 ! x = h2 ! x"
      "kinds_kept h2 (store st1)" by simp_all
    from h2 st1 have "\<forall>x \<in> set X. store st1 ! x = store st ! x"
      "kinds_kept (store st) (store st1)" by (auto intro: kinds_kept_trans)
    from step[OF st1(1) this] descend(6) r1 show ?thesis by auto
  next
    case (stuck h2 e)
    then show ?thesis by simp
  qed
  with run show ?case by simp
qed

lemma safeMerge_total:
  "sealed (store st) X \<Longrightarrow> outside X tv \<Longrightarrow> spine (store st) X sv n \<Longrightarrow>
   fst (safeMerge n st tv sv) \<noteq> OutOfFuel"
proof (induction n arbitrary: st tv sv)
  case 0
  then show ?case by simp
next
  case (Suc n)
  from Suc.prems(3) obtain a where a: "sv = Ref a" "a \<in> set X" by auto
  from sealed_D(2)[OF Suc.prems(1) a(2)] have al: "a < length (store st)" .
  then have keys: "Object_keys (store st) sv = Inr (own_enumerable_keys (store st ! a))"
    by (simp add: a Object_keys_def deref_def)
  from safeMerge_loop_total[where m = n and X = X and a = a and tv = tv and st = st
      and ks = "own_enumerable_keys (store st ! a)", OF Suc.IH a(2) Suc.prems(2) Suc.prems(1)]
    Suc.prems(3) a(1)
  show ?case by (simp add: keys[unfolded a(1)] del: spine.simps)
qed

section \<open>What parsing a body adds to the store\<close>

lemma no_ref_into_iff:
  "no_ref_into S ob \<longleftrightarrow>
     (\<forall>p. proto ob = Some p \<longrightarrow> p \<notin> S)
     \<and> (\<forall>k b e w. (k, Data (Ref b) e w) \<in> set (props ob) \<longrightarrow> b \<notin> S)"
proof -
  have "(case s of Data v e w \<Rightarrow> (case v of Ref b \<Rightarrow> b \<notin> S | _ \<Rightarrow> True) | ProtoAccessor \<Rightarrow> True)
        \<longleftrightarrow> (\<forall>b e w. s = Data (Ref b) e w \<longrightarrow> b \<notin> S)" for s
    by (auto split: slot.splits val.splits)
  then have "list_all (\<lambda>(k, s). case s of
                 Data v e w \<Rightarrow> (case v of Ref b \<Rightarrow> b \<notin> S | _ \<Rightarrow> True)
               | ProtoAccessor \<Rightarrow> True) (props ob)
        \<longleftrightarrow> (\<forall>k b e w. (k, Data (Ref b) e w) \<in> set (props ob) \<longrightarrow> b \<notin> S)"
    unfolding list_all_iff by fastforce
  then show ?thesis unfolding no_ref_into_def by (auto split: option.splits)
qed

lemma no_ref_into_mono: "no_ref_into S ob \<Longrightarrow> T \<subseteq> S \<Longrightarrow> no_ref_into T ob"
  unfolding no_ref_into_iff by blast

lemma no_ref_into_Un: "no_ref_into S ob \<Longrightarrow> no_ref_into T ob \<Longrightarrow> no_ref_into (S \<union> T) ob"
  unfolding no_ref_into_iff by blast

lemma no_ref_into_empty [simp]: "no_ref_into {} ob"
  unfolding no_ref_into_iff by blast

lemma set_prop_set:
  "p \<in> set (set_prop k s ps) \<Longrightarrow> p = (k, s) \<or> p \<in> set ps"
  by (induction ps) (auto split: if_splits)

lemma json_object_props:
  "(k, s) \<in> set (props (json_object kvs)) \<Longrightarrow> \<exists>v. s = Data v True True \<and> (k, v) \<in> set kvs"
proof -
  have "(k, s) \<in> set (foldl (\<lambda>ps (k, v). set_prop k (Data v True True) ps) ps0 kvs) \<Longrightarrow>
        (k, s) \<in> set ps0 \<or> (\<exists>v. s = Data v True True \<and> (k, v) \<in> set kvs)" for ps0
  proof (induction kvs arbitrary: ps0)
    case (Cons kv kvs)
    obtain k' v' where kv: "kv = (k', v')" by (cases kv)
    from Cons.IH[of "set_prop k' (Data v' True True) ps0"] Cons.prems kv
    show ?case by (auto dest: set_prop_set)
  qed simp
  from this[of "[]"] show "(k, s) \<in> set (props (json_object kvs)) \<Longrightarrow> ?thesis"
    by (simp add: json_object_def)
qed

lemma no_ref_json_object:
  assumes "\<forall>(k, v) \<in> set kvs. \<forall>b. v = Ref b \<longrightarrow> b \<notin> S" "ObjectPrototype \<notin> S"
  shows "no_ref_into S (json_object kvs)"
proof -
  have "b \<notin> S" if "(k, Data (Ref b) e w) \<in> set (props (json_object kvs))" for k b e w
    using json_object_props[OF that] assms(1) by auto
  moreover have "proto (json_object kvs) = Some ObjectPrototype" by (simp add: json_object_def)
  ultimately show ?thesis using assms(2) unfolding no_ref_into_iff by auto
qed

lemma no_ref_json_array:
  assumes "\<forall>v \<in> set vs. \<forall>b. v = Ref b \<longrightarrow> b \<notin> S" "ArrayPrototype \<notin> S"
  shows "no_ref_into S (json_array vs)"
  using assms unfolding no_ref_into_iff
  by (auto simp: json_array_def dest: nth_mem)

lemma refs_below_no_ref: "refs_below n ob \<longleftrightarrow> no_ref_into {b. n \<le> b} ob"
proof -
  have "(case s of Data v e w \<Rightarrow> (case v of Ref b \<Rightarrow> b < n | _ \<Rightarrow> True) | ProtoAccessor \<Rightarrow> True)
        \<longleftrightarrow> (\<forall>b e w. s = Data (Ref b) e w \<longrightarrow> b < n)" for s
    by (auto split: slot.splits val.splits)
  then have "list_all (\<lambda>(k, s). case s of
                 Data v e w \<Rightarrow> (case v of Ref b \<Rightarrow> b < n | _ \<Rightarrow> True)
               | ProtoAccessor \<Rightarrow> True) (props ob)
        \<longleftrightarrow> (\<forall>k b e w. (k, Data (Ref b) e w) \<in> set (props ob) \<longrightarrow> b < n)"
    unfolding list_all_iff by fastforce
  then show ?thesis unfolding refs_below_def no_ref_into_iff
    by (auto simp: not_le split: option.splits)
qed

lemma closed_store_D: "closed_store h \<Longrightarrow> a < length h \<Longrightarrow> no_ref_into {b. length h \<le> b} (h ! a)"
  by (simp add: closed_store_def list_all_length refs_below_no_ref)

lemma grows_refl: "closed_store h \<Longrightarrow> grows h h"
  by (simp add: grows_def)

lemma lower_mono: "lower lo' ob \<Longrightarrow> lo \<le> lo' \<Longrightarrow> lower lo ob"
  unfolding lower_def by (erule no_ref_into_mono) auto

lemma grows_trans:
  assumes "grows h h1" "grows h1 h2"
  shows "grows h h2"
proof -
  have "lower (length h) (h2 ! a)" if "length h \<le> a" "a < length h2" for a
  proof (cases "a < length h1")
    case True
    with assms that show ?thesis by (simp add: grows_def)
  next
    case False
    with assms that have "lower (length h1) (h2 ! a)" by (simp add: grows_def)
    then show ?thesis by (rule lower_mono) (use assms(1) in \<open>simp add: grows_def\<close>)
  qed
  with assms show ?thesis by (auto simp: grows_def)
qed

lemma grows_alloc:
  assumes g: "grows h h1"
    and c: "no_ref_into {b. length h1 \<le> b} ob" and l: "lower (length h) ob"
  shows "grows h (h1 @ [ob])"
proof -
  from g have cl: "closed_store h1" and len: "length h \<le> length h1" by (simp_all add: grows_def)
  have "closed_store (h1 @ [ob])"
    unfolding closed_store_def list_all_length refs_below_no_ref
  proof (intro allI impI)
    fix a assume "a < length (h1 @ [ob])"
    then have "no_ref_into {b. length h1 \<le> b} ((h1 @ [ob]) ! a)"
      using closed_store_D[OF cl, of a] c by (cases "a < length h1") (auto simp: nth_append)
    then show "no_ref_into {b. length (h1 @ [ob]) \<le> b} ((h1 @ [ob]) ! a)"
      by (rule no_ref_into_mono) auto
  qed
  moreover have "lower (length h) ((h1 @ [ob]) ! a)" if "length h \<le> a" "a < length (h1 @ [ob])" for a
    using that g l by (cases "a < length h1") (auto simp: nth_append grows_def)
  ultimately show ?thesis using g by (auto simp: grows_def nth_append)
qed

lemma grows_well_formed: "well_formed h \<Longrightarrow> grows h h1 \<Longrightarrow> well_formed h1"
  by (auto simp: well_formed_def grows_def)

lemma fresh_val_wider:
  "fresh_val ha hb v \<Longrightarrow> length h \<le> length ha \<Longrightarrow> length hb \<le> length h1 \<Longrightarrow> fresh_val h h1 v"
  by (auto simp: fresh_val_def)

lemma parse_elems_basic:
  assumes el: "\<And>j h v h1. j \<in> set js \<Longrightarrow> well_formed h \<Longrightarrow> parse j h = (v, h1) \<Longrightarrow>
                 grows h h1 \<and> fresh_val h h1 v"
  shows "well_formed h \<Longrightarrow> parse_elems js h = (vs, h1) \<Longrightarrow>
         grows h h1 \<and> (\<forall>v \<in> set vs. fresh_val h h1 v)"
  using el
proof (induction js arbitrary: h vs h1)
  case Nil
  then show ?case by (simp add: grows_refl well_formed_def)
next
  case (Cons j js)
  obtain v ha where p: "parse j h = (v, ha)" by (cases "parse j h")
  obtain vs' hb where q: "parse_elems js ha = (vs', hb)" by (cases "parse_elems js ha")
  from Cons.prems(2) p q have eq: "vs = v # vs'" "h1 = hb" by simp_all
  from Cons.prems(3)[OF _ Cons.prems(1) p] have 1: "grows h ha" "fresh_val h ha v" by simp_all
  have el': "grows h h1 \<and> fresh_val h h1 v" if "j \<in> set js" "well_formed h" "parse j h = (v, h1)"
    for j h v h1 using Cons.prems(3)[of j h v h1] that by simp
  from Cons.IH[OF grows_well_formed[OF Cons.prems(1) 1(1)] q el']
  have 2: "grows ha hb" "\<forall>v \<in> set vs'. fresh_val ha hb v" by simp_all
  from 1 2 have "length h \<le> length ha" "length ha \<le> length hb" by (simp_all add: grows_def)
  with 1 2 show ?case unfolding eq
    by (auto intro: grows_trans fresh_val_wider)
qed

lemma parse_fields_basic:
  assumes el: "\<And>k j h v h1. (k, j) \<in> set fs \<Longrightarrow> well_formed h \<Longrightarrow> parse j h = (v, h1) \<Longrightarrow>
                 grows h h1 \<and> fresh_val h h1 v"
  shows "well_formed h \<Longrightarrow> parse_fields fs h = (kvs, h1) \<Longrightarrow>
         grows h h1 \<and> (\<forall>(k, v) \<in> set kvs. fresh_val h h1 v)"
  using el
proof (induction fs arbitrary: h kvs h1)
  case Nil
  then show ?case by (simp add: grows_refl well_formed_def)
next
  case (Cons f fs)
  obtain k j where f: "f = (k, j)" by (cases f)
  obtain v ha where p: "parse j h = (v, ha)" by (cases "parse j h")
  obtain kvs' hb where q: "parse_fields fs ha = (kvs', hb)" by (cases "parse_fields fs ha")
  from Cons.prems(2) p q f have eq: "kvs = (k, v) # kvs'" "h1 = hb" by simp_all
  from Cons.prems(3)[OF _ Cons.prems(1) p, of k] f
  have 1: "grows h ha" "fresh_val h ha v" by simp_all
  have el': "grows h h1 \<and> fresh_val h h1 v" if "(k, j) \<in> set fs" "well_formed h" "parse j h = (v, h1)"
    for k j h v h1 using Cons.prems(3)[of k j h v h1] that by simp
  from Cons.IH[OF grows_well_formed[OF Cons.prems(1) 1(1)] q el']
  have 2: "grows ha hb" "\<forall>(k, v) \<in> set kvs'. fresh_val ha hb v" by simp_all
  from 1 2 have "length h \<le> length ha" "length ha \<le> length hb" by (simp_all add: grows_def)
  with 1 2 show ?case unfolding eq
    by (auto intro: grows_trans fresh_val_wider)
qed

lemma parse_basic:
  "well_formed h \<Longrightarrow> parse j h = (v, h1) \<Longrightarrow> grows h h1 \<and> fresh_val h h1 v"
proof (induction j arbitrary: h v h1)
  case (JArr js)
  obtain vs ha where q: "parse_elems js h = (vs, ha)" by (cases "parse_elems js h")
  from JArr.prems(2) q have eq: "v = Ref (length ha)" "h1 = ha @ [json_array vs]"
    by (simp_all add: alloc_def)
  from parse_elems_basic[OF JArr.IH JArr.prems(1) q]
  have 1: "grows h ha" "\<forall>v \<in> set vs. fresh_val h ha v" by simp_all
  from JArr.prems(1) 1(1) have len: "BooleanPrototype < length h" "length h \<le> length ha"
    by (simp_all add: well_formed_def grows_def)
  have "grows h (ha @ [json_array vs])"
  proof (rule grows_alloc[OF 1(1)])
    show "no_ref_into {b. length ha \<le> b} (json_array vs)"
      using 1(2) len by (intro no_ref_json_array) (auto simp: fresh_val_def ArrayPrototype_def BooleanPrototype_def)
    show "lower (length h) (json_array vs)" unfolding lower_def
      using 1(2) len by (intro no_ref_json_array) (auto simp: fresh_val_def ArrayPrototype_def BooleanPrototype_def)
  qed
  with len show ?case unfolding eq by (simp add: fresh_val_def)
next
  case (JObj fs)
  obtain kvs ha where q: "parse_fields fs h = (kvs, ha)" by (cases "parse_fields fs h")
  from JObj.prems(2) q have eq: "v = Ref (length ha)" "h1 = ha @ [json_object kvs]"
    by (simp_all add: alloc_def)
  have "grows h h1 \<and> fresh_val h h1 v" if "(k, j) \<in> set fs" "well_formed h" "parse j h = (v, h1)"
    for k j h v h1 using JObj.IH[of "(k, j)" j h v h1] that by simp
  from parse_fields_basic[OF this JObj.prems(1) q]
  have 1: "grows h ha" "\<forall>(k, v) \<in> set kvs. fresh_val h ha v" by simp_all
  from JObj.prems(1) 1(1) have len: "BooleanPrototype < length h" "length h \<le> length ha"
    by (simp_all add: well_formed_def grows_def)
  have "grows h (ha @ [json_object kvs])"
  proof (rule grows_alloc[OF 1(1)])
    show "no_ref_into {b. length ha \<le> b} (json_object kvs)"
      using 1(2) len by (intro no_ref_json_object) (auto simp: fresh_val_def ObjectPrototype_def BooleanPrototype_def)
    show "lower (length h) (json_object kvs)" unfolding lower_def
      using 1(2) len by (intro no_ref_json_object) (auto simp: fresh_val_def ObjectPrototype_def BooleanPrototype_def)
  qed
  with len show ?case unfolding eq by (simp add: fresh_val_def)
qed (auto simp: grows_refl well_formed_def fresh_val_def)

section \<open>The safe merge comes to an end on every request body\<close>

lemma spine_mono:
  "spine h X v n \<Longrightarrow> n \<le> m \<Longrightarrow> set X \<subseteq> set Y \<Longrightarrow> spine h Y v m"
proof (induction n arbitrary: v m)
  case (Suc n)
  from Suc.prems(2) obtain m' where m: "m = Suc m'" "n \<le> m'" by (cases m) auto
  from Suc.prems(1) obtain a where a: "v = Ref a" "a \<in> set X"
    and ch: "\<And>k c e w. (k, Data c e w) \<in> set (props (h ! a)) \<Longrightarrow> k \<notin> DANGEROUS_KEYS \<Longrightarrow>
           is_container h c \<Longrightarrow> spine h X c n" unfolding spine.simps by blast
  have "spine h Y c m'"
    if "(k, Data c e w) \<in> set (props (h ! a))" "k \<notin> DANGEROUS_KEYS" "is_container h c"
    for k c e w using Suc.IH[OF ch[OF that] m(2) Suc.prems(3)] .
  with a Suc.prems(3) show ?case unfolding m(1) by auto
qed simp

lemma grows_kinds_kept: "grows h h1 \<Longrightarrow> kinds_kept h h1"
  by (simp add: grows_def kinds_kept_def)

lemma spined_Nil [simp]: "spined h h1 []"
  by (simp add: spined_def)

lemma spined_append:
  assumes gd: "well_formed h" and g1: "grows h ha" and g2: "grows ha hb"
    and s1: "spined h ha X1" and s2: "spined ha hb X2"
  shows "spined h hb (X1 @ X2)"
proof -
  from g1 g2 have len: "length h \<le> length ha" "length ha \<le> length hb"
    and same: "\<forall>a < length ha. hb ! a = ha ! a" by (simp_all add: grows_def)
  from gd have b: "BooleanPrototype < length h" by (simp add: well_formed_def)
  from s1 s2 have r: "set X1 \<subseteq> {length h ..< length ha}" "set X2 \<subseteq> {length ha ..< length hb}"
    by (simp_all add: spined_def)
  have k: "kind (hb ! x) = Plain" if "x \<in> set (X1 @ X2)" for x
    using that s1 s2 r same by (auto simp: spined_def)
  have n: "no_ref_into (set (X1 @ X2)) (hb ! a)" if a: "a < length hb" "a \<notin> set (X1 @ X2)" for a
  proof -
    from s2 a have 2: "no_ref_into (set X2) (hb ! a)" by (simp add: spined_def)
    have 1: "no_ref_into (set X1) (hb ! a)"
    proof (cases "a < length ha")
      case True
      with s1 a same show ?thesis by (simp add: spined_def)
    next
      case False
      with g2 a have "lower (length ha) (hb ! a)" by (simp add: grows_def)
      then show ?thesis unfolding lower_def
        by (rule no_ref_into_mono) (use r(1) b in auto)
    qed
    from no_ref_into_Un[OF 1 2] show ?thesis by simp
  qed
  from r len have "set (X1 @ X2) \<subseteq> {length h ..< length hb}" by auto
  with k n show ?thesis unfolding spined_def by blast
qed

lemma spined_alloc:
  assumes g: "grows h ha" and s: "spined h ha X" and k: "kind ob = Plain"
  shows "spined h (ha @ [ob]) (length ha # X)"
proof -
  from g have len: "length h \<le> length ha" and cl: "closed_store ha" by (simp_all add: grows_def)
  from s have r: "set X \<subseteq> {length h ..< length ha}" by (simp add: spined_def)
  have kk: "kind ((ha @ [ob]) ! x) = Plain" if "x \<in> set (length ha # X)" for x
    using that s r k by (auto simp: spined_def nth_append)
  have n: "no_ref_into (set (length ha # X)) ((ha @ [ob]) ! a)"
    if a: "a < length (ha @ [ob])" "a \<notin> set (length ha # X)" for a
  proof -
    from a have al: "a < length ha" "a \<notin> set X" by auto
    with s have 1: "no_ref_into (set X) (ha ! a)" by (simp add: spined_def)
    from closed_store_D[OF cl al(1)] have 2: "no_ref_into {length ha} (ha ! a)"
      by (rule no_ref_into_mono) simp
    from no_ref_into_Un[OF 2 1] al(1) show ?thesis by (simp add: nth_append)
  qed
  from r len have "set (length ha # X) \<subseteq> {length h ..< length (ha @ [ob])}" by auto
  with kk n show ?thesis unfolding spined_def by blast
qed

lemma spine_later:
  assumes s: "spined h ha X" and l: "length ha \<le> length hb" "\<forall>a < length ha. hb ! a = ha ! a"
    and c: "is_container hb v"
    and sp: "is_container ha v \<longrightarrow> spine ha X v n"
  shows "spine hb X v n"
proof -
  from s l have x: "\<forall>x \<in> set X. hb ! x = ha ! x" by (auto simp: spined_def)
  from l have kk: "kinds_kept ha hb" by (simp add: kinds_kept_def)
  from spine_kept[OF x kk] sp is_container_kept[OF kk c]
  show ?thesis by simp
qed

lemma grows_D: "grows h h1 \<Longrightarrow> length h \<le> length h1" "grows h h1 \<Longrightarrow> \<forall>a < length h. h1 ! a = h ! a"
  by (simp_all add: grows_def)

lemma parse_fields_spine:
  assumes el: "\<And>k j h v h1. (k, j) \<in> set fs \<Longrightarrow> well_formed h \<Longrightarrow> parse j h = (v, h1) \<Longrightarrow>
                 \<exists>X. spined h h1 X \<and> (is_container h1 v \<longrightarrow> spine h1 X v (depth j))"
  shows "well_formed h \<Longrightarrow> parse_fields fs h = (kvs, h1) \<Longrightarrow>
         \<exists>X. spined h h1 X
           \<and> (\<forall>(k, v) \<in> set kvs. is_container h1 v \<longrightarrow> spine h1 X v (depth_fields fs))"
  using el
proof (induction fs arbitrary: h kvs h1)
  case Nil
  then show ?case by (auto intro: exI[of _ "[]"])
next
  case (Cons f fs)
  obtain k j where f: "f = (k, j)" by (cases f)
  obtain v ha where p: "parse j h = (v, ha)" by (cases "parse j h")
  obtain kvs' hb where q: "parse_fields fs ha = (kvs', hb)" by (cases "parse_fields fs ha")
  from Cons.prems(2) p q f have eq: "kvs = (k, v) # kvs'" "h1 = hb" by simp_all
  from parse_basic[OF Cons.prems(1) p] have g1: "grows h ha" by simp
  note gd = grows_well_formed[OF Cons.prems(1) g1]
  from parse_fields_basic[OF parse_basic gd q] have g2: "grows ha hb" by simp
  from Cons.prems(3)[OF _ Cons.prems(1) p, of k] f
  obtain X1 where X1: "spined h ha X1" "is_container ha v \<longrightarrow> spine ha X1 v (depth j)" by auto
  have "\<exists>X. spined ha hb X
           \<and> (\<forall>(k, v) \<in> set kvs'. is_container hb v \<longrightarrow> spine hb X v (depth_fields fs))"
  proof (rule Cons.IH[OF gd q])
    fix k0 j0 h0 v0 h10
    assume "(k0, j0) \<in> set fs" "well_formed h0" "parse j0 h0 = (v0, h10)"
    then show "\<exists>X. spined h0 h10 X \<and> (is_container h10 v0 \<longrightarrow> spine h10 X v0 (depth j0))"
      using Cons.prems(3)[of k0 j0 h0 v0 h10] by simp
  qed
  then obtain X2 where X2: "spined ha hb X2"
    "\<forall>(k, v) \<in> set kvs'. is_container hb v \<longrightarrow> spine hb X2 v (depth_fields fs)" by auto
  note sp = spined_append[OF Cons.prems(1) g1 g2 X1(1) X2(1)]
  have a: "spine hb (X1 @ X2) v (depth_fields (f # fs))" if "is_container hb v"
    using spine_mono[OF spine_later[OF X1(1) grows_D[OF g2] that X1(2)], of "depth_fields (f # fs)" "X1 @ X2"] f
    by simp
  have b: "spine hb (X1 @ X2) v' (depth_fields (f # fs))"
    if "(k', v') \<in> set kvs'" "is_container hb v'" for k' v'
    using spine_mono[of hb X2 v' "depth_fields fs" "depth_fields (f # fs)" "X1 @ X2"] X2(2) that f
    by auto
  from sp a b show ?case unfolding eq by (intro exI[of _ "X1 @ X2"]) auto
qed

lemma not_container_prim [simp]:
  "\<not> is_container h Null" "\<not> is_container h (Bool b)" "\<not> is_container h (Num n)"
  "\<not> is_container h (Str s)"
  by (simp_all add: is_container_def typeof_def)

lemma parse_spine:
  "well_formed h \<Longrightarrow> parse j h = (v, h1) \<Longrightarrow>
   \<exists>X. spined h h1 X \<and> (is_container h1 v \<longrightarrow> spine h1 X v (depth j))"
proof (induction j arbitrary: h v h1)
  case (JArr js)
  obtain vs ha where q: "parse_elems js h = (vs, ha)" by (cases "parse_elems js h")
  from JArr.prems(2) q have eq: "v = Ref (length ha)" "h1 = ha @ [json_array vs]"
    by (simp_all add: alloc_def)
  have "\<not> is_container h1 v" unfolding eq by (simp add: is_container_Ref json_array_def)
  then show ?case by (intro exI[of _ "[]"]) simp
next
  case (JObj fs)
  obtain kvs ha where q: "parse_fields fs h = (kvs, ha)" by (cases "parse_fields fs h")
  from JObj.prems(2) q have eq: "v = Ref (length ha)" "h1 = ha @ [json_object kvs]"
    by (simp_all add: alloc_def)
  from parse_fields_basic[OF parse_basic JObj.prems(1) q] have g: "grows h ha" by simp
  have gk: "length ha \<le> length h1" "\<forall>a < length ha. h1 ! a = ha ! a"
    unfolding eq by (simp_all add: nth_append)
  have "\<exists>X. spined h ha X
           \<and> (\<forall>(k, v) \<in> set kvs. is_container ha v \<longrightarrow> spine ha X v (depth_fields fs))"
  proof (rule parse_fields_spine[OF _ JObj.prems(1) q])
    fix k0 j0 h0 v0 h10
    assume "(k0, j0) \<in> set fs" "well_formed h0" "parse j0 h0 = (v0, h10)"
    then show "\<exists>X. spined h0 h10 X \<and> (is_container h10 v0 \<longrightarrow> spine h10 X v0 (depth j0))"
      using JObj.IH[of "(k0, j0)" j0 h0 v0 h10] by simp
  qed
  then obtain X where X: "spined h ha X"
    "\<forall>(k, v) \<in> set kvs. is_container ha v \<longrightarrow> spine ha X v (depth_fields fs)" by auto
  let ?Y = "length ha # X"
  have sp: "spined h h1 ?Y" unfolding eq
    by (rule spined_alloc[OF g X(1)]) (simp add: json_object_def)
  have "spine h1 ?Y c (depth_fields fs)"
    if "(k, Data c e w) \<in> set (props (h1 ! length ha))" "is_container h1 c" for k c e w
  proof -
    from that(1) have "(k, c) \<in> set kvs" unfolding eq by (auto dest: json_object_props)
    with X(2) have "is_container ha c \<longrightarrow> spine ha X c (depth_fields fs)" by auto
    from spine_mono[OF spine_later[OF X(1) gk that(2) this], of "depth_fields fs" ?Y]
    show ?thesis by auto
  qed
  then have "spine h1 ?Y v (depth (JObj fs))" unfolding eq(1) by auto
  with sp show ?case by blast
qed (auto intro: exI[of _ "[]"])

lemma spined_sealed:
  assumes "well_formed h" "spined h h1 X"
  shows "sealed h1 X"
  using assms unfolding sealed_def guarded_def spined_def well_formed_def
  by (auto simp: NumberPrototype_def StringPrototype_def BooleanPrototype_def)

text \<open>
  Merging a parsed JSON object into a target that was there before the body was parsed
  always comes to an end, with fuel that covers the nesting depth of the body.
\<close>

lemma safeMerge_json_total:
  assumes h: "closed_store h" "BooleanPrototype < length h"
    and t: "\<forall>b. target = Ref b \<longrightarrow> b < length h"
    and n: "depth (JObj fs) \<le> n"
  shows "fst (safeMerge_json n h target (JObj fs)) \<noteq> OutOfFuel"
proof -
  from h have gd: "well_formed h" by (simp add: well_formed_def)
  obtain v h1 where p: "parse (JObj fs) h = (v, h1)" by (cases "parse (JObj fs) h")
  from parse_spine[OF gd p] obtain X where X: "spined h h1 X"
    "is_container h1 v \<longrightarrow> spine h1 X v (depth (JObj fs))" by auto
  obtain kvs ha where q: "parse_fields fs h = (kvs, ha)" by (cases "parse_fields fs h")
  from p q have eq: "v = Ref (length ha)" "h1 = ha @ [json_object kvs]"
    by (simp_all add: alloc_def)
  have "is_container h1 v" unfolding eq by (simp add: is_container_Ref json_object_def)
  with X(2) have "spine h1 X v (depth (JObj fs))" by simp
  from spine_mono[OF this n subset_refl] have sp: "spine h1 X v n" .
  from X(1) t have o: "outside X target" by (cases target) (auto simp: spined_def)
  from safeMerge_total[of "\<lparr>store = h1, console = []\<rparr>" X target v n]
    spined_sealed[OF gd X(1)] o sp
  show ?thesis unfolding safeMerge_json_def p by simp
qed

text \<open>The store of the patched server is such a store, and so is the one of the demo.\<close>

lemma fixed_heap_closed: "closed_store fixed_heap \<and> BooleanPrototype < length fixed_heap"
  by code_simp

lemma demo_heap_closed: "closed_store demo_heap \<and> BooleanPrototype < length demo_heap"
  by code_simp

lemma safeMerge_json_total_alice:
  "depth (JObj fs) \<le> n \<Longrightarrow> fst (safeMerge_json n fixed_heap (Ref 18) (JObj fs)) \<noteq> OutOfFuel"
proof -
  have "18 < length fixed_heap" by code_simp
  with fixed_heap_closed show "depth (JObj fs) \<le> n \<Longrightarrow> ?thesis"
    by (intro safeMerge_json_total) simp_all
qed

section \<open>Merging an object of scalar fields\<close>

lemma merge_ready_D:
  assumes "merge_ready h t"
  shows "t < length h" "kind (h ! t) = Plain" "proto (h ! t) = None" "extensible (h ! t)"
    "\<And>k s. map_of (props (h ! t)) k = Some s \<Longrightarrow> \<exists>v e. s = Data v e True"
proof -
  from assms show t: "t < length h"
    by (auto simp: merge_ready_def deref_def split: if_splits)
  with assms show "kind (h ! t) = Plain" "proto (h ! t) = None" "extensible (h ! t)"
    by (simp_all add: merge_ready_def deref_def)
  fix k s assume "map_of (props (h ! t)) k = Some s"
  then have "(k, s) \<in> set (props (h ! t))" by (rule map_of_SomeD)
  with assms t show "\<exists>v e. s = Data v e True"
    by (cases s) (auto simp: merge_ready_def deref_def list_all_iff)
qed

lemma merge_ready_put:
  assumes "merge_ready h t"
  shows "\<exists>e. put h (Ref t) k v = Inr (set_own h t k (Data v e True))
            \<and> (map_of (props (h ! t)) k = None \<longrightarrow> e)"
proof (cases "map_of (props (h ! t)) k")
  case None
  with merge_ready_D[OF assms] show ?thesis
    by (intro exI[of _ True]) (simp add: put_create)
next
  case (Some s)
  from merge_ready_D(5)[OF assms Some] obtain v0 e where "s = Data v0 e True" by auto
  with Some merge_ready_D(1)[OF assms]
  have "put h (Ref t) k v = Inr (set_own h t k (Data v e True))" by (simp add: put_update)
  with Some show ?thesis by auto
qed

lemma merge_ready_set_own:
  assumes "merge_ready h t"
  shows "merge_ready (set_own h t k (Data v e True)) t"
proof -
  have "list_all (\<lambda>(k, s). case s of Data v e w \<Rightarrow> w | ProtoAccessor \<Rightarrow> False)
          (set_prop k (Data v e True) (props (h ! t)))"
    using assms by (intro list_all_set_prop) (auto simp: merge_ready_def deref_def split: if_splits)
  with assms show ?thesis
    by (auto simp: merge_ready_def deref_def set_own_def split: if_splits)
qed


lemma kind_set_own [simp]: "kind (set_own h a k s ! b) = kind (h ! b)"
  by (cases "a < length h"; cases "b = a") (simp_all add: set_own_def list_update_beyond)

lemma is_container_set_own [simp]:
  "is_container (set_own h a k s) v = is_container h v"
  by (cases v) (simp_all add: is_container_def typeof_def isArray_def deref_def)

lemma flat_source_D:
  assumes "flat_source h s"
  shows "s < length h"
    "\<And>k sl. map_of (props (h ! s)) k = Some sl \<Longrightarrow> k \<notin> DANGEROUS_KEYS \<Longrightarrow>
       \<exists>v e w. sl = Data v e w \<and> \<not> is_container h v"
proof -
  from assms show s: "s < length h" by (auto simp: flat_source_def deref_def split: if_splits)
  fix k sl assume "map_of (props (h ! s)) k = Some sl" "k \<notin> DANGEROUS_KEYS"
  then have "(k, sl) \<in> set (props (h ! s))" "k \<notin> DANGEROUS_KEYS" by (auto dest: map_of_SomeD)
  with assms s show "\<exists>v e w. sl = Data v e w \<and> \<not> is_container h v"
    by (cases sl) (auto simp: flat_source_def deref_def list_all_iff)
qed

lemma flat_source_set_own:
  "flat_source h s \<Longrightarrow> s \<noteq> t \<Longrightarrow> flat_source (set_own h t k sl) s"
  by (fastforce simp: flat_source_def deref_def set_own_other list_all_iff
      split: if_splits slot.splits)

text \<open>
  The loop over a flat source and a ready target: every key is answered on the spot, a denied
  one with a warning, any other with the assignment of its value.
\<close>

lemma safeMerge_loop_flat:
  assumes "merge_ready (store st) t" "flat_source (store st) s" "s \<noteq> t"
    "\<forall>k \<in> set keys. k \<notin> DANGEROUS_KEYS \<longrightarrow> map_of (props (store st ! s)) k \<noteq> None"
  shows "\<exists>h'. safeMerge_loop n st (Ref t) (Ref s) keys
            = (Normal (Ref t),
               \<lparr>store = h',
                console = console st @ map BlockedKey (filter (\<lambda>k. k \<in> DANGEROUS_KEYS) keys)\<rparr>)
         \<and> length h' = length (store st) \<and> (\<forall>b. b \<noteq> t \<longrightarrow> h' ! b = store st ! b)
         \<and> merge_ready h' t
         \<and> (\<forall>k v e w. k \<in> set keys \<longrightarrow> k \<notin> DANGEROUS_KEYS \<longrightarrow>
               map_of (props (store st ! s)) k = Some (Data v e w) \<longrightarrow>
               (\<exists>e'. map_of (props (h' ! t)) k = Some (Data v e' True)))
         \<and> (\<forall>k. k \<notin> set keys \<or> k \<in> DANGEROUS_KEYS \<longrightarrow>
               map_of (props (h' ! t)) k = map_of (props (store st ! t)) k)"
  using assms
proof (induction keys arbitrary: st)
  case Nil
  from Nil.prems(1) show ?case by (intro exI[of _ "store st"]) simp
next
  case (Cons k keys)
  let ?h = "store st"
  show ?case
  proof (cases "k \<in> DANGEROUS_KEYS")
    case True
    from Cons.IH[of "warn st (BlockedKey k)"] Cons.prems True
    show ?thesis by (auto simp: warn_def)
  next
    case False
    with Cons.prems(4) obtain sl where sl: "map_of (props (?h ! s)) k = Some sl" by auto
    from flat_source_D(2)[OF Cons.prems(2) sl False] obtain v e w where
      v: "sl = Data v e w" "\<not> is_container ?h v" by auto
    from flat_source_D(1)[OF Cons.prems(2)] sl v have g: "get ?h (Ref s) k = Inr v"
      by (simp add: get_own)
    from merge_ready_put[OF Cons.prems(1), of k v] obtain e1 where
      p: "put ?h (Ref t) k v = Inr (set_own ?h t k (Data v e1 True))" by auto
    let ?h1 = "set_own ?h t k (Data v e1 True)"
    let ?st1 = "st\<lparr>store := ?h1\<rparr>"
    from False g v(2) p have step: "safeMerge_loop n st (Ref t) (Ref s) (k # keys)
        = safeMerge_loop n ?st1 (Ref t) (Ref s) keys"
      by (auto simp: is_container_def)
    have ts: "t < length ?h" by (rule merge_ready_D(1)[OF Cons.prems(1)])
    have s1: "?h1 ! s = ?h ! s" using Cons.prems(3) by (simp add: set_own_other)
    from Cons.IH[of ?st1] merge_ready_set_own[OF Cons.prems(1)]
      flat_source_set_own[OF Cons.prems(2,3)] Cons.prems(3,4) s1
    obtain h' where
      run: "safeMerge_loop n ?st1 (Ref t) (Ref s) keys
            = (Normal (Ref t),
               \<lparr>store = h',
                console = console st @ map BlockedKey (filter (\<lambda>k. k \<in> DANGEROUS_KEYS) keys)\<rparr>)"
      and len: "length h' = length ?h" and fr: "\<forall>b. b \<noteq> t \<longrightarrow> h' ! b = ?h1 ! b"
      and mr: "merge_ready h' t"
      and wr: "\<forall>k v e w. k \<in> set keys \<longrightarrow> k \<notin> DANGEROUS_KEYS \<longrightarrow>
               map_of (props (?h ! s)) k = Some (Data v e w) \<longrightarrow>
               (\<exists>e'. map_of (props (h' ! t)) k = Some (Data v e' True))"
      and un: "\<forall>k. k \<notin> set keys \<or> k \<in> DANGEROUS_KEYS \<longrightarrow>
               map_of (props (h' ! t)) k = map_of (props (?h1 ! t)) k"
      by auto
    have k1: "map_of (props (?h1 ! t)) k' = (if k' = k then Some (Data v e1 True)
                else map_of (props (?h ! t)) k')" for k'
      using ts by (simp add: set_own_def map_of_set_prop)
    have wk: "\<exists>e'. map_of (props (h' ! t)) k = Some (Data v e' True)"
    proof (cases "k \<in> set keys")
      case True
      with wr False sl v show ?thesis by blast
    next
      case nk: False
      with un k1[of k] show ?thesis by auto
    qed
    have "\<forall>b. b \<noteq> t \<longrightarrow> h' ! b = ?h ! b" using fr by (simp add: set_own_other)
    moreover have "\<forall>k' v e w. k' \<in> set (k # keys) \<longrightarrow> k' \<notin> DANGEROUS_KEYS \<longrightarrow>
               map_of (props (?h ! s)) k' = Some (Data v e w) \<longrightarrow>
               (\<exists>e'. map_of (props (h' ! t)) k' = Some (Data v e' True))"
      using wr wk sl v by auto
    moreover have "\<forall>k'. k' \<notin> set (k # keys) \<or> k' \<in> DANGEROUS_KEYS \<longrightarrow>
               map_of (props (h' ! t)) k' = map_of (props (?h ! t)) k'"
      using un k1 False by auto
    ultimately show ?thesis using step run len mr False by auto
  qed
qed

lemma enumerable_key_slot:
  "enumerable_key ob k \<Longrightarrow> \<exists>v w. map_of (props ob) k = Some (Data v True w)"
  by (auto simp: enumerable_key_def slot_enumerable_def split: option.splits slot.splits)

lemma Object_keys_object:
  "a < length h \<Longrightarrow> Object_keys h (Ref a) = Inr (own_enumerable_keys (h ! a))"
  by (simp add: Object_keys_def deref_def)

text \<open>The whole call, for a flat source and a ready target.\<close>

lemma safeMerge_flat:
  assumes "merge_ready (store st) t" "flat_source (store st) s" "s \<noteq> t"
  shows "\<exists>h'. safeMerge (Suc n) st (Ref t) (Ref s)
            = (Normal (Ref t),
               \<lparr>store = h',
                console = console st @ map BlockedKey
                  (filter (\<lambda>k. k \<in> DANGEROUS_KEYS) (own_enumerable_keys (store st ! s)))\<rparr>)
         \<and> length h' = length (store st) \<and> (\<forall>b. b \<noteq> t \<longrightarrow> h' ! b = store st ! b)
         \<and> merge_ready h' t
         \<and> (\<forall>k v e w. enumerable_key (store st ! s) k \<longrightarrow> k \<notin> DANGEROUS_KEYS \<longrightarrow>
               map_of (props (store st ! s)) k = Some (Data v e w) \<longrightarrow>
               (\<exists>e'. map_of (props (h' ! t)) k = Some (Data v e' True)))
         \<and> (\<forall>k. \<not> enumerable_key (store st ! s) k \<or> k \<in> DANGEROUS_KEYS \<longrightarrow>
               map_of (props (h' ! t)) k = map_of (props (store st ! t)) k)"
proof -
  let ?keys = "own_enumerable_keys (store st ! s)"
  have ks: "set ?keys = {k. enumerable_key (store st ! s) k}" by (rule set_own_enumerable_keys)
  then have "\<forall>k \<in> set ?keys. k \<notin> DANGEROUS_KEYS \<longrightarrow> map_of (props (store st ! s)) k \<noteq> None"
    by (auto dest: enumerable_key_slot)
  from safeMerge_loop_flat[OF assms this, of n] ks
    Object_keys_object[OF flat_source_D(1)[OF assms(2)]]
  show ?thesis by simp
qed

lemma order_keys_single [simp]: "order_keys [k] = [k]"
  by (simp add: order_keys_def)






lemma is_container_append_null [simp]:
  "is_container (h @ [null_object]) v = is_container h v"
  by (cases v)
     (auto simp: is_container_def typeof_def isArray_def deref_def nth_append null_object_def
        less_Suc_eq)



section \<open>Merging an object nested under a path of keys\<close>

lemma is_container_fresh_child [simp]:
  "is_container (fresh_child h ta k e) v = is_container h v"
  by (simp add: fresh_child_def)



section \<open>What parsing gives for an object under a path\<close>


lemma extends_refl [simp]: "extends h h"
  by (simp add: extends_def)



















lemma merge_ready_get:
  assumes "merge_ready h t"
  shows "get h (Ref t) k
         = Inr (case map_of (props (h ! t)) k of Some (Data v e w) \<Rightarrow> v | _ \<Rightarrow> Undefined)"
proof (cases "map_of (props (h ! t)) k")
  case None
  with merge_ready_D[OF assms] show ?thesis by (simp add: get_absent)
next
  case (Some s)
  from merge_ready_D(5)[OF assms Some] obtain v e where "s = Data v e True" by auto
  with Some merge_ready_D(1)[OF assms] show ?thesis by (simp add: get_own)
qed


section \<open>The merge of the concept demo on a denied key under a path\<close>









section \<open>C3: a denied key is skipped at whatever depth the merge meets it\<close>





section \<open>C4: violations do not reject the merge\<close>






section \<open>C9: the deny-list test is case-sensitive\<close>




section \<open>C2: the safe merge walks own keys only\<close>

text \<open>
  C2: \<^verbatim>\<open>safeMerge\<close> takes its keys from \<^verbatim>\<open>Object.keys(source)\<close>, and what it does is determined by
  them.  For a source object these are exactly its own enumerable properties, in their
  order; a name the source only inherits (say, from a polluted \<^verbatim>\<open>Object.prototype\<close>) is not
  among them.

  \<^item> For every name that is not among these keys, the own property of the target under that
    name is after the merge what it was before: absent if it was absent.  This is stated
    for a target that is not an array and is shielded, that is, nothing reachable in the
    merge refers to it (a fresh \<^verbatim>\<open>defaults\<close> object, or a user record referred to by the user
    table only): an object that refers back to the target lets a nested call write to it.

  \<^item> For a source all of whose own properties are denied keys or scalars, and a plain
    extensible target without prototype, the whole effect of the merge is given by the own
    enumerable keys: the merge returns the target; the console gains one warning for each
    denied own enumerable key, in order, and nothing else; under each other own enumerable
    key the target now reads what the source reads; under every other name (inherited by
    the source or not, or denied) the own property of the target is what it was; and no
    other object has changed.
\<close>

theorem C2_own_keys_only:
  assumes "s < length (store st)" and "Object_keys (store st) (Ref s) = Inr keys"
    and "safeMerge (Suc n) st (Ref t) (Ref s) = (r, st')"
  shows "keys = own_enumerable_keys (store st ! s)
    \<and> set keys = {k. enumerable_key (store st ! s) k}
    \<and> (shielded (store st) X t \<and> kind (store st ! t) \<noteq> Array \<and> s \<notin> set X \<longrightarrow>
         (\<forall>k. k \<notin> set keys \<longrightarrow>
            map_of (props (store st' ! t)) k = map_of (props (store st ! t)) k))
    \<and> (merge_ready (store st) t \<and> flat_source (store st) s \<and> s \<noteq> t \<longrightarrow>
         r = Normal (Ref t)
         \<and> console st' = console st @ map BlockedKey (filter (\<lambda>k. k \<in> DANGEROUS_KEYS) keys)
         \<and> (\<forall>k \<in> set keys. k \<notin> DANGEROUS_KEYS \<longrightarrow>
               get (store st') (Ref t) k = get (store st) (Ref s) k)
         \<and> (\<forall>k. k \<notin> set keys \<or> k \<in> DANGEROUS_KEYS \<longrightarrow>
               map_of (props (store st' ! t)) k = map_of (props (store st ! t)) k)
         \<and> length (store st') = length (store st)
         \<and> (\<forall>b. b \<noteq> t \<longrightarrow> store st' ! b = store st ! b))"
proof -
  note s = assms(1)
  with assms(2) have keys: "keys = own_enumerable_keys (store st ! s)"
    by (simp add: Object_keys_object)
  have ks: "set keys = {k. enumerable_key (store st ! s) k}"
    unfolding keys by (rule set_own_enumerable_keys)
  have run: "safeMerge_loop n st (Ref t) (Ref s) keys = (r, st')"
    using assms by simp
  have a: "map_of (props (store st' ! t)) k = map_of (props (store st ! t)) k"
    if "shielded (store st) X t" "s \<notin> set X" "k \<notin> set keys" for k
  proof -
    from that(2) have "outside X (Ref s)" by (simp add: outside_def)
    from safeMerge_loop_top[OF that(1) this run that(3)] show ?thesis by simp
  qed
  have b: "r = Normal (Ref t)
         \<and> console st' = console st @ map BlockedKey (filter (\<lambda>k. k \<in> DANGEROUS_KEYS) keys)
         \<and> (\<forall>k \<in> set keys. k \<notin> DANGEROUS_KEYS \<longrightarrow>
               get (store st') (Ref t) k = get (store st) (Ref s) k)
         \<and> (\<forall>k. k \<notin> set keys \<or> k \<in> DANGEROUS_KEYS \<longrightarrow>
               map_of (props (store st' ! t)) k = map_of (props (store st ! t)) k)
         \<and> length (store st') = length (store st)
         \<and> (\<forall>b. b \<noteq> t \<longrightarrow> store st' ! b = store st ! b)"
    if mr: "merge_ready (store st) t" and fl: "flat_source (store st) s" and ne: "s \<noteq> t"
  proof -
    from safeMerge_flat[OF mr fl ne, of n] assms(3) obtain h' where
      r: "r = Normal (Ref t)"
      and st': "st' = \<lparr>store = h', console = console st @ map BlockedKey
                  (filter (\<lambda>k. k \<in> DANGEROUS_KEYS) (own_enumerable_keys (store st ! s)))\<rparr>"
      and len: "length h' = length (store st)"
      and fr: "\<forall>b. b \<noteq> t \<longrightarrow> h' ! b = store st ! b"
      and mr': "merge_ready h' t"
      and wr: "\<forall>k v e w. enumerable_key (store st ! s) k \<longrightarrow> k \<notin> DANGEROUS_KEYS \<longrightarrow>
               map_of (props (store st ! s)) k = Some (Data v e w) \<longrightarrow>
               (\<exists>e'. map_of (props (h' ! t)) k = Some (Data v e' True))"
      and un: "\<forall>k. \<not> enumerable_key (store st ! s) k \<or> k \<in> DANGEROUS_KEYS \<longrightarrow>
               map_of (props (h' ! t)) k = map_of (props (store st ! t)) k"
      by auto
    have g: "get (store st') (Ref t) k = get (store st) (Ref s) k"
      if "k \<in> set keys" "k \<notin> DANGEROUS_KEYS" for k
    proof -
      from that(1) ks have en: "enumerable_key (store st ! s) k" by simp
      from enumerable_key_slot[OF en] obtain v w where
        sl: "map_of (props (store st ! s)) k = Some (Data v True w)" by blast
      from wr en that(2) sl obtain e' where
        tl: "map_of (props (h' ! t)) k = Some (Data v e' True)" by blast
      from get_own[OF s sl] have "get (store st) (Ref s) k = Inr v" .
      moreover from merge_ready_get[OF mr', of k] tl have "get h' (Ref t) k = Inr v" by simp
      ultimately show ?thesis by (simp add: st')
    qed
    from r st' len fr un g ks keys show ?thesis by simp
  qed
  from keys ks a b show ?thesis by blast
qed

theorem C2_own_keys_only_witness:
  "Object_keys (store inherit_request) (Ref 21) = Inr [''bio'', ''__proto__'', ''nick'']
   \<and> for_in_keys (store inherit_request) (Ref 21) = [''bio'', ''__proto__'', ''nick'', ''isAdmin'']
   \<and> get (store inherit_request) (Ref 21) ''isAdmin'' = Inr (Bool True)
   \<and> shielded (store inherit_request) [20] 20 \<and> kind (store inherit_request ! 20) \<noteq> Array
   \<and> merge_ready (store inherit_request) 20 \<and> flat_source (store inherit_request) 21
   \<and> map_of (props (store inherit_request ! 20)) ''isAdmin'' = None
   \<and> fst (safeMerge (Suc 0) inherit_request (Ref 20) (Ref 21)) = Normal (Ref 20)
   \<and> console (snd (safeMerge (Suc 0) inherit_request (Ref 20) (Ref 21)))
       = [BlockedKey ''__proto__'']
   \<and> get (store (snd (safeMerge (Suc 0) inherit_request (Ref 20) (Ref 21)))) (Ref 20) ''bio''
       = Inr (Str ''x'')
   \<and> get (store (snd (safeMerge (Suc 0) inherit_request (Ref 20) (Ref 21)))) (Ref 20) ''nick''
       = Inr (Str ''al'')
   \<and> map_of (props (store (snd (safeMerge (Suc 0) inherit_request (Ref 20) (Ref 21))) ! 20))
        ''isAdmin'' = None
   \<and> map_of (props (store (snd (safeMerge (Suc 0) inherit_request (Ref 20) (Ref 21))) ! 20))
        ''__proto__'' = None
   \<and> map_of (props (store (snd (unsafeMerge (Suc 0) inherit_request (Ref 20) (Ref 21))) ! 20))
        ''isAdmin'' = Some (Data (Bool True) True True)"
proof -
  let ?run = "safeMerge (Suc 0) inherit_request (Ref 20) (Ref 21)"
  have 1: "Object_keys (store inherit_request) (Ref 21) = Inr [''bio'', ''__proto__'', ''nick'']"
    by code_simp
  have 2: "for_in_keys (store inherit_request) (Ref 21)
      = [''bio'', ''__proto__'', ''nick'', ''isAdmin'']" by code_simp
  have 3: "get (store inherit_request) (Ref 21) ''isAdmin'' = Inr (Bool True)" by code_simp
  have 4: "shielded (store inherit_request) [20] 20" by code_simp
  have 5: "kind (store inherit_request ! 20) \<noteq> Array" by code_simp
  have 6: "merge_ready (store inherit_request) 20" by code_simp
  have 7: "flat_source (store inherit_request) 21" by code_simp
  have 8: "map_of (props (store inherit_request ! 20)) ''isAdmin'' = None" by code_simp
  have 9: "map_of (props (store inherit_request ! 20)) ''__proto__'' = None" by code_simp
  have 10: "get (store inherit_request) (Ref 21) ''bio'' = Inr (Str ''x'')" by code_simp
  have 11: "get (store inherit_request) (Ref 21) ''nick'' = Inr (Str ''al'')" by code_simp
  have 12: "map_of (props (store (snd (unsafeMerge (Suc 0) inherit_request (Ref 20) (Ref 21))) ! 20))
        ''isAdmin'' = Some (Data (Bool True) True True)" by code_simp
  have 13: "filter (\<lambda>k. k \<in> DANGEROUS_KEYS) [''bio'', ''__proto__'', ''nick''] = [''__proto__'']"
    "''bio'' \<notin> DANGEROUS_KEYS" "''nick'' \<notin> DANGEROUS_KEYS" "''__proto__'' \<in> DANGEROUS_KEYS"
    by (simp_all add: DANGEROUS_KEYS_def)
  have run: "?run = (fst ?run, snd ?run)" by (rule surjective_pairing)
  have 0: "21 < length (store inherit_request)" by code_simp
  have ne: "(21::nat) \<notin> set [20]" "(21::nat) \<noteq> 20" by simp_all
  note c = C2_own_keys_only[OF 0 1 run, of "[20]"]
  from c 4 5 ne have a: "\<forall>k. k \<notin> set [''bio'', ''__proto__'', ''nick''] \<longrightarrow>
      map_of (props (store (snd ?run) ! 20)) k = map_of (props (store inherit_request ! 20)) k"
    by blast
  from c 6 7 ne have b: "fst ?run = Normal (Ref 20)"
    "console (snd ?run) = console inherit_request
        @ map BlockedKey (filter (\<lambda>k. k \<in> DANGEROUS_KEYS) [''bio'', ''__proto__'', ''nick''])"
    "\<forall>k \<in> set [''bio'', ''__proto__'', ''nick'']. k \<notin> DANGEROUS_KEYS \<longrightarrow>
        get (store (snd ?run)) (Ref 20) k = get (store inherit_request) (Ref 21) k"
    "\<forall>k. k \<notin> set [''bio'', ''__proto__'', ''nick''] \<or> k \<in> DANGEROUS_KEYS \<longrightarrow>
        map_of (props (store (snd ?run) ! 20)) k = map_of (props (store inherit_request ! 20)) k"
    by blast+
  have co: "console inherit_request = []" by (simp add: inherit_request_def)
  from b(2) co 13(1) have b2: "console (snd ?run) = [BlockedKey ''__proto__'']" by simp
  from b(3) 13 10 11 have b3: "get (store (snd ?run)) (Ref 20) ''bio'' = Inr (Str ''x'')"
    "get (store (snd ?run)) (Ref 20) ''nick'' = Inr (Str ''al'')"
    by (simp_all del: safeMerge.simps)
  from a 8 have a1: "map_of (props (store (snd ?run) ! 20)) ''isAdmin'' = None"
    by (simp del: safeMerge.simps)
  from b(4) 13 9 have b4: "map_of (props (store (snd ?run) ! 20)) ''__proto__'' = None"
    by (simp del: safeMerge.simps)
  from 1 2 3 4 5 6 7 8 b(1) b2 b3 a1 b4 12 show ?thesis by blast
qed

end
